theory Spec2Isabelle
  imports Complex_Main "HOL-Library.Char_ord" "HOL-Library.List_Lexorder"
begin

section \<open>Values shared by the consumer group\<close>

text \<open>
  The development embeds \<^verbatim>\<open>consumergroup/consumer_group.go\<close>. Go's \<^verbatim>\<open>int32\<close>
  partition ids, \<^verbatim>\<open>int64\<close> offsets and \<^verbatim>\<open>time.Duration\<close> values (an
  \<^verbatim>\<open>int64\<close> count of nanoseconds) are integers here. The only arithmetic the code does
  on them is \<^verbatim>\<open>ProcessingTimeout/time.Second + 2\<close> and \<^verbatim>\<open>tries+1\<close>, neither of which
  can leave the 64-bit range (the quotient of an \<^verbatim>\<open>int64\<close> by \<open>10\<^sup>9\<close> is below
  \<open>10\<^sup>1\<^sup>0\<close>), so no wrap-around arises; \<^verbatim>\<open>int(...)\<close> is the conversion of a 64-bit
  platform.
\<close>

type_synonym int32 = int
type_synonym int64 = int
type_synonym Duration = int

definition Second :: Duration where
  "Second = 1000000000"

text \<open>The two sentinel offsets of the broker client (sarama).\<close>

definition OffsetNewest :: int64 where
  "OffsetNewest = - 1"

definition OffsetOldest :: int64 where
  "OffsetOldest = - 2"

text \<open>
  Error values. \<open>AlreadyClosing\<close> is the package variable of that name;
  \<open>ConfigurationError\<close> and \<open>ErrorsNew\<close> carry the message of
  \<^verbatim>\<open>sarama.ConfigurationError(...)\<close> and \<^verbatim>\<open>errors.New(...)\<close>; \<open>ErrOffsetOutOfRange\<close>
  and \<open>ErrPartitionClaimedByOther\<close> are the sentinels of the broker client and of the
  metadata-store client; \<open>External\<close> is any other error a collaborator returns.
\<close>

datatype error =
    AlreadyClosing
  | ConfigurationError string
  | ErrorsNew string
  | ErrOffsetOutOfRange
  | ErrPartitionClaimedByOther
  | External nat

record ConsumerError =
  Topic :: string
  Partition :: int32
  Err :: error

record ConsumerMessage =
  msg_Topic :: string
  msg_Partition :: int32
  Offset :: int64

record sarama_Config =
  ClientID :: string
  ChannelBufferSize :: int

record kazoo_Config =
  Timeout :: Duration

text \<open>
  \<^verbatim>\<open>Config\<close> embeds a pointer to the broker client's configuration and holds a
  pointer to the metadata-store client's configuration. Either pointer can be nil:
  both fields are options, \<open>None\<close> for nil.
\<close>

record Config =
  sarama :: "sarama_Config option"
  Zookeeper :: "kazoo_Config option"
  Initial :: int64
  ProcessingTimeout :: Duration
  CommitInterval :: Duration
  ResetOffsets :: bool

text \<open>
  The fields of \<^verbatim>\<open>ConsumerGroup\<close> that the code reads or writes after construction.
  \<open>instance_handle\<close> is the field \<^verbatim>\<open>instance\<close> (\<open>None\<close> for nil, else the id of the
  registered instance); \<open>singleShutdown\<close> is the done flag of the \<^verbatim>\<open>sync.Once\<close>; the
  three \<open>_closed\<close> flags are the states of the channels \<^verbatim>\<open>stopper\<close>,
  \<^verbatim>\<open>messages\<close> and \<^verbatim>\<open>errors\<close>.
\<close>

record ConsumerGroup =
  config :: Config
  groupName :: string
  instance_handle :: "string option"
  instanceID :: string
  consumers :: "string list"
  singleShutdown :: bool
  stopper_closed :: bool
  messages_closed :: bool
  errors_closed :: bool

section \<open>Effects and control\<close>

text \<open>
  Every call that leaves the function (to the metadata store, the broker client, the
  offset manager, a channel, a mutex, a wait-group, the logger, the scheduler) is an
  effect, recorded in program order.
\<close>

datatype effect =
    Log string
  | MuLock
  | CloseStopper
  | MuUnlock
  | WgWait
  | OffsetManagerClose
  | Deregister
  | ConsumerClose
  | CloseMessages
  | CloseErrors
  | SetInstanceNil
  | KazooClose
  | NewKazoo
  | BrokerList
  | GroupResetOffsets
  | GenerateConsumerInstanceID
  | NewConsumer
  | GroupExists
  | GroupCreate
  | Register
  | NewZookeeperOffsetManager
  | Go_topicListConsumer "string list"
  | TopicPartitions string
  | PartitionLeader int32
  | SendError ConsumerError
  | ForwardError error
  | ForwardMessage ConsumerMessage
  | Cancel
  | Go_partitionConsumer string int32
  | LocalWgWait
  | WgDone
  | TimeAfter1s
  | ClaimPartition string int32
  | ReleasePartition string int32
  | InitializePartition string int32
  | ConsumePartition string int32 int64
  | PartitionConsumerClose nat
  | FinalizePartition string int32 int64 Duration

text \<open>
  How a piece of code ends: it falls through to the next statement (\<open>Continue\<close>),
  returns from the function, panics, stays blocked forever in a channel send or a
  wait-group (\<open>Blocked\<close>), or is still waiting in the \<^verbatim>\<open>select\<close> of the main loop when
  the events given to the model end (\<open>Waiting\<close>).
\<close>

datatype outcome = Continue | Return | Panic | Blocked | Waiting

type_synonym run = "outcome \<times> ConsumerGroup \<times> effect list"
type_synonym step = "ConsumerGroup \<Rightarrow> run"

definition outcome_of :: "run \<Rightarrow> outcome" where
  "outcome_of r = fst r"

definition trace_of :: "run \<Rightarrow> effect list" where
  "trace_of r = snd (snd r)"

definition emit :: "effect list \<Rightarrow> step" where
  "emit es cg = (Continue, cg, es)"

definition finish :: "outcome \<Rightarrow> step" where
  "finish oc cg = (oc, cg, [])"

definition andThen :: "step \<Rightarrow> step \<Rightarrow> step" where
  "andThen f g cg =
     (case f cg of
        (Continue, cg', t) \<Rightarrow> (case g cg' of (oc, cg'', t') \<Rightarrow> (oc, cg'', t @ t'))
      | r \<Rightarrow> r)"

fun steps :: "step list \<Rightarrow> step" where
  "steps [] = emit []"
| "steps (s # ss) = andThen s (steps ss)"

text \<open>
  \<^verbatim>\<open>defer d\<close> followed by \<open>body\<close>: the deferred call runs when the body returns, falls off
  its end or panics, and does not run while the goroutine is blocked or waiting. A
  panic of the body goes on after the deferred call.
\<close>

definition with_defer :: "step \<Rightarrow> step \<Rightarrow> step" where
  "with_defer d body cg =
     (case body cg of
        (Blocked, cg', t) \<Rightarrow> (Blocked, cg', t)
      | (Waiting, cg', t) \<Rightarrow> (Waiting, cg', t)
      | (oc, cg', t) \<Rightarrow>
          (case d cg' of
             (Continue, cg'', t') \<Rightarrow> (if oc = Panic then Panic else Return, cg'', t @ t')
           | (Return, cg'', t') \<Rightarrow> (if oc = Panic then Panic else Return, cg'', t @ t')
           | (oc', cg'', t') \<Rightarrow> (oc', cg'', t @ t')))"

text \<open>
  \<^verbatim>\<open>Logf\<close> takes the last twelve bytes of the instance id unless the instance handle is
  nil; the slice expression panics on a shorter id.
\<close>

definition Logf :: "string \<Rightarrow> step" where
  "Logf format cg =
     (if instance_handle cg = None then (Continue, cg, [Log format])
      else if length (instanceID cg) < 12 then (Panic, cg, [])
      else (Continue, cg, [Log format]))"

text \<open>\<^verbatim>\<open>close(ch)\<close> panics on a channel that is closed already.\<close>

definition close_stopper :: step where
  "close_stopper cg =
     (if stopper_closed cg then (Panic, cg, [])
      else (Continue, cg\<lparr>stopper_closed := True\<rparr>, [CloseStopper]))"

definition close_messages :: step where
  "close_messages cg =
     (if messages_closed cg then (Panic, cg, [])
      else (Continue, cg\<lparr>messages_closed := True\<rparr>, [CloseMessages]))"

definition close_errors :: step where
  "close_errors cg =
     (if errors_closed cg then (Panic, cg, [])
      else (Continue, cg\<lparr>errors_closed := True\<rparr>, [CloseErrors]))"

section \<open>Close\<close>

text \<open>
  What the collaborators answer during one shutdown: the errors returned by
  \<^verbatim>\<open>offsetManager.Close\<close>, \<^verbatim>\<open>instance.Deregister\<close> and \<^verbatim>\<open>consumer.Close\<close>, and
  whether \<^verbatim>\<open>cg.wg.Wait()\<close> returns, that is, whether every topic consumer of the
  generation reaches its \<^verbatim>\<open>wg.Done\<close>.
\<close>

record close_env =
  wg_Wait_returns :: bool
  offsetManager_Close :: "error option"
  instance_Deregister :: "error option"
  consumer_Close :: "error option"

definition wg_Wait :: "close_env \<Rightarrow> step" where
  "wg_Wait env cg = (if wg_Wait_returns env then (Continue, cg, [WgWait]) else (Blocked, cg, []))"

text \<open>A method call on the nil instance handle panics.\<close>

definition instance_call :: "effect \<Rightarrow> step" where
  "instance_call e cg =
     (if instance_handle cg = None then (Panic, cg, []) else (Continue, cg, [e]))"

definition set_instance_nil :: step where
  "set_instance_nil cg = (Continue, cg\<lparr>instance_handle := None\<rparr>, [SetInstanceNil])"

text \<open>The function literal that \<^verbatim>\<open>Close\<close> hands to \<^verbatim>\<open>singleShutdown.Do\<close>.\<close>

definition shutdown :: "close_env \<Rightarrow> step" where
  "shutdown env =
     with_defer (emit [KazooClose])
       (steps
         [emit [MuLock],
          close_stopper,
          emit [MuUnlock],
          wg_Wait env,
          emit [OffsetManagerClose],
          (if offsetManager_Close env \<noteq> None
           then Logf ''FAILED closing the offset manager: %s!'' else emit []),
          instance_call Deregister,
          (if instance_Deregister env \<noteq> None
           then Logf ''FAILED deregistering consumer instance: %s!''
           else Logf ''Deregistered consumer instance %s.''),
          emit [ConsumerClose],
          (if consumer_Close env \<noteq> None
           then Logf ''FAILED closing the Sarama client: %s'' else emit []),
          close_messages,
          close_errors,
          set_instance_nil])"

datatype 'a ret = Returns 'a | Panics | Blocks

text \<open>
  \<^verbatim>\<open>Close\<close>: the result starts as \<^verbatim>\<open>AlreadyClosing\<close>; the \<^verbatim>\<open>sync.Once\<close> runs the
  shutdown on the first call only, and counts a panicking run as done. When the
  shutdown runs to its end the result is the last value assigned to
  \<^verbatim>\<open>shutdownError\<close>, the answer of \<^verbatim>\<open>consumer.Close\<close>.
\<close>

definition Close :: "close_env \<Rightarrow> ConsumerGroup \<Rightarrow> error option ret \<times> ConsumerGroup \<times> effect list" where
  "Close env cg =
     (if singleShutdown cg then (Returns (Some AlreadyClosing), cg, [])
      else
        (case shutdown env cg of
           (Panic, cg', t) \<Rightarrow> (Panics, cg'\<lparr>singleShutdown := True\<rparr>, t)
         | (Blocked, cg', t) \<Rightarrow> (Blocks, cg', t)
         | (Waiting, cg', t) \<Rightarrow> (Blocks, cg', t)
         | (oc, cg', t) \<Rightarrow> (Returns (consumer_Close env), cg'\<lparr>singleShutdown := True\<rparr>, t)))"

text \<open>\<^verbatim>\<open>Closed\<close> reports whether the instance handle is nil.\<close>

definition Closed :: "ConsumerGroup \<Rightarrow> bool" where
  "Closed cg = (instance_handle cg = None)"

section \<open>Channel sends\<close>

text \<open>
  A plain send \<^verbatim>\<open>cg.errors <- v\<close> has no alternative: it completes when the channel
  accepts the value (buffer space or a reader) and otherwise blocks for good, whatever
  happens to the generation context. A send on a closed channel panics.
\<close>

definition send_errors :: "bool \<Rightarrow> ConsumerError \<Rightarrow> step" where
  "send_errors accepts ce cg =
     (if errors_closed cg then (Panic, cg, [])
      else if accepts then (Continue, cg, [SendError ce])
      else (Blocked, cg, []))"

text \<open>
  A send inside \<^verbatim>\<open>select\<close> with \<^verbatim>\<open>case <-ctx.Done()\<close> as the other case: the runtime
  takes a case that is ready, either of them when both are, and blocks only while
  neither is.
\<close>

record send_select =
  channel_accepts :: bool
  ctx_Done :: bool
  done_chosen :: bool

datatype select_case = SendCase | DoneCase | NoCase

definition select_send_or_Done :: "send_select \<Rightarrow> select_case" where
  "select_send_or_Done s =
     (if channel_accepts s \<and> ctx_Done s then (if done_chosen s then DoneCase else SendCase)
      else if channel_accepts s then SendCase
      else if ctx_Done s then DoneCase
      else NoCase)"

section \<open>The partition consumer\<close>

text \<open>Go's integer division truncates towards zero.\<close>

definition go_div :: "int \<Rightarrow> int \<Rightarrow> int" where
  "go_div a b = sgn a * sgn b * (\<bar>a\<bar> div \<bar>b\<bar>)"

definition maxRetries :: "ConsumerGroup \<Rightarrow> int" where
  "maxRetries cg = go_div (ProcessingTimeout (config cg)) Second + 2"

text \<open>
  What happens around one partition consumer. \<open>claim_events\<close> says, for each pass of
  the claim loop, which case of its \<^verbatim>\<open>select\<close> fires: the context's cancellation, or
  the one-second timer followed by the answer of \<^verbatim>\<open>ClaimPartition\<close>.
  \<open>consumer_ConsumePartition n\<close> is the broker client's answer to the \<open>n\<close>-th call of
  \<^verbatim>\<open>ConsumePartition\<close> made by this worker (a stream handle or an error).
  \<open>loop_events\<close> are the cases that fire in the \<^verbatim>\<open>select\<close> of the main loop, in order.
\<close>

datatype claim_event = CtxDone | TimerFired "error option"

datatype loop_event =
    CtxDoneEv
  | ErrorsNil
  | ErrorsEv error send_select
  | MessagesNil
  | MessagesEv ConsumerMessage send_select

record pc_env =
  claim_events :: "nat \<Rightarrow> claim_event"
  errors_accepts :: bool
  instance_ReleasePartition :: "error option"
  offsetManager_InitializePartition :: "error + int64"
  consumer_ConsumePartition :: "nat \<Rightarrow> string \<Rightarrow> int32 \<Rightarrow> int64 \<Rightarrow> error + nat"
  loop_events :: "loop_event list"
  offsetManager_FinalizePartition :: "error option"

definition prepend :: "effect list \<Rightarrow> run \<Rightarrow> run" where
  "prepend t r = (case r of (oc, cg, t') \<Rightarrow> (oc, cg, t @ t'))"

text \<open>
  The loop labelled \<^verbatim>\<open>partitionClaimLoop\<close>. \<open>Continue\<close> is both the \<^verbatim>\<open>break\<close> after a
  successful claim and the end of the \<^verbatim>\<open>for\<close> when \<^verbatim>\<open>tries < maxRetries\<close> fails.
\<close>

function partitionClaimLoop :: "pc_env \<Rightarrow> string \<Rightarrow> int32 \<Rightarrow> int \<Rightarrow> int \<Rightarrow> step" where
  "partitionClaimLoop env topic partn maxRetries' tries cg =
     (if tries < maxRetries' then
        (case claim_events env (nat tries) of
           CtxDone \<Rightarrow> (Return, cg, [])
         | TimerFired r \<Rightarrow>
             if instance_handle cg = None then (Panic, cg, [TimeAfter1s])
             else
               (case r of
                  None \<Rightarrow> (Continue, cg, [TimeAfter1s, ClaimPartition topic partn])
                | Some err \<Rightarrow>
                    if tries + 1 < maxRetries' then
                      (case (if err = ErrPartitionClaimedByOther then emit []
                             else Logf ''%s/%d :: FAILED to claim partition on attempt %v of %v; retrying in 1 second. Error: %v'') cg of
                         (Continue, cg', t) \<Rightarrow>
                           prepend ([TimeAfter1s, ClaimPartition topic partn] @ t)
                             (partitionClaimLoop env topic partn maxRetries' (tries + 1) cg')
                       | (oc, cg', t) \<Rightarrow>
                           (oc, cg', [TimeAfter1s, ClaimPartition topic partn] @ t))
                    else
                      steps
                        [emit [TimeAfter1s, ClaimPartition topic partn],
                         Logf ''%s/%d :: FAILED to claim the partition: %s'',
                         send_errors (errors_accepts env)
                           \<lparr>Topic = topic, Partition = partn, Err = err\<rparr>,
                         finish Return] cg))
      else (Continue, cg, []))"
  by pat_completeness auto
termination
  by (relation "measure (\<lambda>(env, topic, partn, maxRetries', tries, cg). nat (maxRetries' - tries))")
     auto

declare partitionClaimLoop.simps [simp del]

text \<open>The deferred function that releases the claim.\<close>

definition release_deferred :: "pc_env \<Rightarrow> string \<Rightarrow> int32 \<Rightarrow> step" where
  "release_deferred env topic partn =
     andThen (instance_call (ReleasePartition topic partn))
       (case instance_ReleasePartition env of
          None \<Rightarrow> emit []
        | Some err \<Rightarrow>
            steps
              [Logf ''%s/%d :: FAILED to release partition: %s'',
               send_errors (errors_accepts env)
                 \<lparr>Topic = topic, Partition = partn, Err = err\<rparr>])"

text \<open>
  \<^verbatim>\<open>consumePartition\<close>, called when this worker has made \<open>n\<close> calls of
  \<^verbatim>\<open>ConsumePartition\<close> so far. The result is what the function returns (an error, or
  the stream handle), the number of calls made after it, and its run; the returned
  value counts when the run ends with \<open>Continue\<close>.
\<close>

definition consumePartition ::
  "pc_env \<Rightarrow> nat \<Rightarrow> string \<Rightarrow> int32 \<Rightarrow> int64 \<Rightarrow> ConsumerGroup \<Rightarrow> (error + nat) \<times> nat \<times> run" where
  "consumePartition env n topic partn nextOffset cg =
     (let r1 = consumer_ConsumePartition env n topic partn nextOffset in
      if r1 = Inl ErrOffsetOutOfRange then
        (let nextOffset' =
               (if Initial (config cg) = OffsetOldest then OffsetOldest else OffsetNewest);
             r2 = consumer_ConsumePartition env (n + 1) topic partn nextOffset'
         in (r2, n + 2,
             steps
               [emit [ConsumePartition topic partn nextOffset],
                Logf ''%s/%d :: Partition consumer offset out of Range.'',
                (if Initial (config cg) = OffsetOldest
                 then Logf ''%s/%d :: Partition consumer offset reset to oldest available offset.''
                 else Logf ''%s/%d :: Partition consumer offset reset to newest available offset.''),
                emit [ConsumePartition topic partn nextOffset'],
                (case r2 of
                   Inl err \<Rightarrow> Logf ''%s/%d :: FAILED to start partition consumer: %s''
                 | Inr consumer \<Rightarrow> emit [])] cg))
      else
        (r1, n + 1,
         steps
           [emit [ConsumePartition topic partn nextOffset],
            (case r1 of
               Inl err \<Rightarrow> Logf ''%s/%d :: FAILED to start partition consumer: %s''
             | Inr consumer \<Rightarrow> emit [])] cg))"

text \<open>The code after the main loop: the final log line and the finalisation.\<close>

definition stopPartitionConsumer :: "pc_env \<Rightarrow> string \<Rightarrow> int32 \<Rightarrow> int64 \<Rightarrow> step" where
  "stopPartitionConsumer env topic partn lastOffset cg =
     steps
       [Logf ''%s/%d :: Stopping partition consumer at offset %d'',
        emit [FinalizePartition topic partn lastOffset (ProcessingTimeout (config cg))],
        (case offsetManager_FinalizePartition env of
           Some err \<Rightarrow> Logf ''%s/%d :: %s''
         | None \<Rightarrow> emit [])] cg"

text \<open>
  The two branches of the main loop that re-establish the stream after a nil value:
  the log line, then \<^verbatim>\<open>consumePartition\<close> at \<^verbatim>\<open>lastOffset\<close>. When the log line panics
  nothing is returned, and the first component of the result is immaterial.
\<close>

definition reestablish ::
  "pc_env \<Rightarrow> nat \<Rightarrow> string \<Rightarrow> int32 \<Rightarrow> int64 \<Rightarrow> ConsumerGroup \<Rightarrow> (error + nat) \<times> nat \<times> run" where
  "reestablish env n topic partn lastOffset cg =
     (case Logf ''%s/%d :: Consumer encountered an invalid state: re-establishing consumption of partition.'' cg of
        (Continue, cg', t) \<Rightarrow>
          (case consumePartition env n topic partn lastOffset cg' of
             (r, n', run') \<Rightarrow> (r, n', prepend t run'))
      | other \<Rightarrow> (Inl AlreadyClosing, n, other))"

text \<open>
  The loop labelled \<^verbatim>\<open>partitionConsumerLoop\<close>, followed by the code after it. Leaving
  the loop by \<^verbatim>\<open>break\<close> goes on with \<open>stopPartitionConsumer\<close>.
\<close>

fun partitionConsumerLoop ::
  "pc_env \<Rightarrow> string \<Rightarrow> int32 \<Rightarrow> nat \<Rightarrow> int64 \<Rightarrow> loop_event list \<Rightarrow> step" where
  "partitionConsumerLoop env topic partn n lastOffset [] cg = (Waiting, cg, [])"
| "partitionConsumerLoop env topic partn n lastOffset (CtxDoneEv # evs) cg =
     stopPartitionConsumer env topic partn lastOffset cg"
| "partitionConsumerLoop env topic partn n lastOffset (ErrorsNil # evs) cg =
     (case reestablish env n topic partn lastOffset cg of
        (Inl cErr, n', (Continue, cg', t)) \<Rightarrow>
          prepend t (stopPartitionConsumer env topic partn lastOffset cg')
      | (Inr consumer, n', (Continue, cg', t)) \<Rightarrow>
          prepend t (partitionConsumerLoop env topic partn n' lastOffset evs cg')
      | (r, n', other) \<Rightarrow> other)"
| "partitionConsumerLoop env topic partn n lastOffset (ErrorsEv err sel # evs) cg =
     (case select_send_or_Done sel of
        SendCase \<Rightarrow>
          if errors_closed cg then (Panic, cg, [])
          else prepend [ForwardError err]
                 (partitionConsumerLoop env topic partn n lastOffset evs cg)
      | DoneCase \<Rightarrow> stopPartitionConsumer env topic partn lastOffset cg
      | NoCase \<Rightarrow> (Blocked, cg, []))"
| "partitionConsumerLoop env topic partn n lastOffset (MessagesNil # evs) cg =
     (case reestablish env n topic partn lastOffset cg of
        (Inl cErr, n', (Continue, cg', t)) \<Rightarrow>
          prepend t (stopPartitionConsumer env topic partn lastOffset cg')
      | (Inr consumer, n', (Continue, cg', t)) \<Rightarrow>
          prepend t (partitionConsumerLoop env topic partn n' lastOffset evs cg')
      | (r, n', other) \<Rightarrow> other)"
| "partitionConsumerLoop env topic partn n lastOffset (MessagesEv message sel # evs) cg =
     (case select_send_or_Done sel of
        SendCase \<Rightarrow>
          if messages_closed cg then (Panic, cg, [])
          else prepend [ForwardMessage message]
                 (partitionConsumerLoop env topic partn n (Offset message) evs cg)
      | DoneCase \<Rightarrow> stopPartitionConsumer env topic partn lastOffset cg
      | NoCase \<Rightarrow> (Blocked, cg, []))"

text \<open>
  From the first call of \<^verbatim>\<open>consumePartition\<close> on: a failure is logged once more and
  the worker returns; otherwise the stream's \<^verbatim>\<open>Close\<close> is deferred and the main loop
  starts with \<^verbatim>\<open>lastOffset = -1\<close>.
\<close>

definition startPartitionConsumer :: "pc_env \<Rightarrow> string \<Rightarrow> int32 \<Rightarrow> int64 \<Rightarrow> step" where
  "startPartitionConsumer env topic partn nextOffset cg =
     (case consumePartition env 0 topic partn nextOffset cg of
        (Inl err, n, (Continue, cg', t)) \<Rightarrow>
          prepend t
            (steps
              [Logf ''%s/%d :: FAILED to start partition consumer: %s'',
               finish Return] cg')
      | (Inr consumer, n, (Continue, cg', t)) \<Rightarrow>
          prepend t
            (with_defer (emit [PartitionConsumerClose consumer])
              (partitionConsumerLoop env topic partn n (- 1) (loop_events env)) cg')
      | (r, n, other) \<Rightarrow> other)"

text \<open>
  From \<^verbatim>\<open>InitializePartition\<close> on: the choice of the offset at which the stream is
  opened.
\<close>

definition consumeClaimed :: "pc_env \<Rightarrow> string \<Rightarrow> int32 \<Rightarrow> step" where
  "consumeClaimed env topic partn cg =
     (case offsetManager_InitializePartition env of
        Inl err \<Rightarrow>
          steps
            [emit [InitializePartition topic partn],
             Logf ''%s/%d :: FAILED to determine initial offset: %s'',
             finish Return] cg
      | Inr nextOffset \<Rightarrow>
          if nextOffset \<ge> 0 then
            steps
              [emit [InitializePartition topic partn],
               Logf ''%s/%d :: Partition consumer starting at offset %d.'',
               startPartitionConsumer env topic partn nextOffset] cg
          else
            steps
              [emit [InitializePartition topic partn],
               (if Initial (config cg) = OffsetOldest
                then Logf ''%s/%d :: Partition consumer starting at the oldest available offset.''
                else if Initial (config cg) = OffsetNewest
                then Logf ''%s/%d :: Partition consumer listening for new messages only.''
                else emit []),
               startPartitionConsumer env topic partn (Initial (config cg))] cg)"

definition partitionConsumer :: "pc_env \<Rightarrow> string \<Rightarrow> int32 \<Rightarrow> step" where
  "partitionConsumer env topic partn =
     with_defer (emit [WgDone])
       (\<lambda>cg. andThen (partitionClaimLoop env topic partn (maxRetries cg) 0)
               (with_defer (release_deferred env topic partn)
                  (consumeClaimed env topic partn)) cg)"

section \<open>The partition assigner\<close>

record kazoo_Partition =
  ID :: int32

record partitionLeader =
  pl_id :: int32
  pl_leader :: int32
  pl_partition :: kazoo_Partition

text \<open>
  Modelled from the spec: the slices of the partition assigner, whose code lies outside
  \<^verbatim>\<open>consumer_group.go\<close>. The list \<open>ps\<close> is cut into one slice per instance id, of
  \<open>n\<close> elements each, the first \<open>m\<close> slices taking one element more.
\<close>

fun assign_slices :: "nat \<Rightarrow> nat \<Rightarrow> string list \<Rightarrow> 'p list \<Rightarrow> (string \<times> 'p list) list" where
  "assign_slices n m [] ps = []"
| "assign_slices n m (c # cs) ps =
     (let k = (if 0 < m then n + 1 else n)
      in (c, take k ps) # assign_slices n (m - 1) cs (drop k ps))"

text \<open>
  Modelled from the spec: \<^verbatim>\<open>dividePartitionsBetweenConsumers\<close> is called by
  \<^verbatim>\<open>topicConsumer\<close> and defined outside \<^verbatim>\<open>consumer_group.go\<close>. The spec (Partition
  Assigner) has it cut the ordered list of partitions into as many contiguous slices
  as there are instance ids, of sizes that differ by at most one, and give slice \<open>k\<close>
  to the \<open>k\<close>-th id. The spec leaves open which slices are the longer ones; here they
  are the leading ones. There is one slice per instance id, so none when there is no
  id. The result is the list of (instance id, slice) pairs in the order of the ids,
  which stands for the Go map from instance id to slice; the caller looks its own id
  up in it.
\<close>

definition dividePartitionsBetweenConsumers ::
  "string list \<Rightarrow> partitionLeader list \<Rightarrow> (string \<times> partitionLeader list) list" where
  "dividePartitionsBetweenConsumers cs partitions =
     assign_slices (length partitions div length cs) (length partitions mod length cs)
       cs partitions"

text \<open>\<^verbatim>\<open>dividedPartitions[id]\<close>: the slice of an id, empty for an id that is no key.\<close>

definition assigned :: "(string \<times> 'p list) list \<Rightarrow> string \<Rightarrow> 'p list" where
  "assigned dividedPartitions i = (case map_of dividedPartitions i of None \<Rightarrow> [] | Some ps \<Rightarrow> ps)"

section \<open>The topic consumer\<close>

text \<open>
  \<^verbatim>\<open>zookeeperClient.RetrievePartitionLeaders\<close>: one \<^verbatim>\<open>Leader()\<close> query per partition,
  in order, stopping at the first error. \<open>Leader\<close> is the store's answer for a
  partition id.
\<close>

fun RetrievePartitionLeaders ::
  "(int32 \<Rightarrow> error + int32) \<Rightarrow> kazoo_Partition list \<Rightarrow> (error + partitionLeader list) \<times> effect list" where
  "RetrievePartitionLeaders Leader [] = (Inr [], [])"
| "RetrievePartitionLeaders Leader (p # ps) =
     (case Leader (ID p) of
        Inl err \<Rightarrow> (Inl err, [PartitionLeader (ID p)])
      | Inr l \<Rightarrow>
          (case RetrievePartitionLeaders Leader ps of
             (Inl err, t) \<Rightarrow> (Inl err, PartitionLeader (ID p) # t)
           | (Inr pls, t) \<Rightarrow>
               (Inr (\<lparr>pl_id = ID p, pl_leader = l, pl_partition = p\<rparr> # pls),
                PartitionLeader (ID p) # t)))"

text \<open>
  What happens around one topic consumer: whether the generation context is cancelled
  already at the first \<^verbatim>\<open>select\<close>, the store's answers, whether the \<^verbatim>\<open>errors\<close> channel
  ever accepts a value, and whether the partition consumers it starts all reach their
  \<^verbatim>\<open>wg.Done\<close>.
\<close>

record tc_env =
  ctx_Done_at_entry :: bool
  kazoo_TopicPartitions :: "error + kazoo_Partition list"
  partition_Leader :: "int32 \<Rightarrow> error + int32"
  tc_errors_accepts :: bool
  partitionConsumers_done :: bool

definition local_wg_Wait :: "tc_env \<Rightarrow> step" where
  "local_wg_Wait env cg =
     (if partitionConsumers_done env then (Continue, cg, [LocalWgWait]) else (Blocked, cg, []))"

definition consumeAssigned :: "tc_env \<Rightarrow> string \<Rightarrow> partitionLeader list \<Rightarrow> step" where
  "consumeAssigned env topic topicPartitionLeaders cg =
     (let dividedPartitions = dividePartitionsBetweenConsumers (consumers cg) topicPartitionLeaders;
          myPartitions = assigned dividedPartitions (instanceID cg)
      in steps
           [Logf ''%s :: Claiming %d of %d partitions'',
            emit (map (\<lambda>pid. Go_partitionConsumer topic (ID (pl_partition pid))) myPartitions),
            local_wg_Wait env,
            Logf ''%s :: Stopped topic consumer''] cg)"

definition topicConsumer :: "tc_env \<Rightarrow> string \<Rightarrow> step" where
  "topicConsumer env topic =
     with_defer (emit [WgDone])
       (\<lambda>cg.
          if ctx_Done_at_entry env then (Return, cg, [])
          else
            steps
              [Logf ''%s :: Started topic consumer'',
               emit [TopicPartitions topic],
               (case kazoo_TopicPartitions env of
                  Inl err \<Rightarrow>
                    steps
                      [Logf ''%s :: FAILED to get list of partitions: %s'',
                       send_errors (tc_errors_accepts env)
                         \<lparr>Topic = topic, Partition = - 1, Err = err\<rparr>,
                       emit [Cancel],
                       finish Return]
                | Inr partitions \<Rightarrow>
                    (case RetrievePartitionLeaders (partition_Leader env) partitions of
                       (Inl err, t) \<Rightarrow>
                         steps
                           [emit t,
                            Logf ''%s :: FAILED to get leaders of partitions: %s'',
                            send_errors (tc_errors_accepts env)
                              \<lparr>Topic = topic, Partition = - 1, Err = err\<rparr>,
                            emit [Cancel],
                            finish Return]
                     | (Inr topicPartitionLeaders, t) \<Rightarrow>
                         steps [emit t, consumeAssigned env topic topicPartitionLeaders]))] cg)"

section \<open>Joining a consumer group\<close>

text \<open>
  The parts of the two client libraries that \<^verbatim>\<open>NewConfig\<close> and \<^verbatim>\<open>Validate\<close> call:
  their default configurations and the broker client's own validation.
\<close>

record externals =
  sarama_NewConfig :: sarama_Config
  kazoo_NewConfig :: kazoo_Config
  sarama_Validate :: "sarama_Config \<Rightarrow> error option"

definition NewConfig :: "externals \<Rightarrow> Config" where
  "NewConfig ext =
     \<lparr>sarama = Some (sarama_NewConfig ext),
      Zookeeper = Some (kazoo_NewConfig ext),
      Initial = OffsetOldest,
      ProcessingTimeout = 60 * Second,
      CommitInterval = 10 * Second,
      ResetOffsets = False\<rparr>"

text \<open>
  \<^verbatim>\<open>Validate\<close> reads \<^verbatim>\<open>cgc.Zookeeper.Timeout\<close> first, through the pointer: on a nil
  \<^verbatim>\<open>Zookeeper\<close> the call panics. The embedded pointer is compared with nil before the
  broker client's own validation is called.
\<close>

definition Validate :: "externals \<Rightarrow> Config \<Rightarrow> error option ret" where
  "Validate ext cgc =
     (case Zookeeper cgc of
        None \<Rightarrow> Panics
      | Some zk \<Rightarrow>
          Returns
            (if Timeout zk \<le> 0
             then Some (ConfigurationError ''ZookeeperTimeout should have a duration > 0'')
             else if CommitInterval cgc < 0
             then Some (ConfigurationError ''CommitInterval should have a duration >= 0'')
             else if Initial cgc \<noteq> OffsetOldest \<and> Initial cgc \<noteq> OffsetNewest
             then Some (ErrorsNew ''Offsets.Initial should be sarama.OffsetOldest or sarama.OffsetNewest.'')
             else
               (case sarama cgc of
                  None \<Rightarrow> None
                | Some sc \<Rightarrow> sarama_Validate ext sc)))"

text \<open>
  The answers of the metadata store, the id generator and the broker client while
  \<^verbatim>\<open>DefaultConsumerGroup\<close> runs.
\<close>

record default_env =
  kazoo_NewKazoo :: "error option"
  kz_BrokerList :: "error option"
  group_ResetOffsets :: "error option"
  generateConsumerInstanceID :: "error + string"
  sarama_NewConsumer :: "error option"
  group_Exists :: "error + bool"
  group_Create :: "error option"
  instance_Register :: "error option"

type_synonym constructed = "(ConsumerGroup option \<times> error option) ret \<times> effect list"

text \<open>
  The second half of \<^verbatim>\<open>DefaultConsumerGroup\<close>, from the point where the
  \<^verbatim>\<open>ConsumerGroup\<close> value exists: creating the group in the store when it is missing,
  registering the instance, starting the offset manager.
\<close>

definition registerConsumerGroup ::
  "default_env \<Rightarrow> ConsumerGroup \<Rightarrow> (ConsumerGroup option \<times> error option) \<times> run" where
  "registerConsumerGroup env cg =
     (case group_Exists env of
        Inl err \<Rightarrow>
          ((None, Some err),
           steps
             [emit [GroupExists],
              Logf ''FAILED to check for existence of consumergroup: %s!'',
              emit [ConsumerClose, KazooClose]] cg)
      | Inr exists \<Rightarrow>
          (case (if exists then None else group_Create env) of
             Some err \<Rightarrow>
               ((None, Some err),
                steps
                  [emit [GroupExists],
                   Logf ''Consumergroup %s does not yet exists, creating...'',
                   emit [GroupCreate],
                   Logf ''FAILED to create consumergroup in Zookeeper: %s!'',
                   emit [ConsumerClose, KazooClose]] cg)
           | None \<Rightarrow>
               (case instance_Register env of
                  Some err \<Rightarrow>
                    ((None, Some err),
                     steps
                       [emit [GroupExists],
                        (if exists then emit []
                         else steps
                                [Logf ''Consumergroup %s does not yet exists, creating...'',
                                 emit [GroupCreate]]),
                        emit [Register],
                        Logf ''FAILED to register consumer instance: %s!''] cg)
                | None \<Rightarrow>
                    ((Some cg, None),
                     steps
                       [emit [GroupExists],
                        (if exists then emit []
                         else steps
                                [Logf ''Consumergroup %s does not yet exists, creating...'',
                                 emit [GroupCreate]]),
                        emit [Register],
                        Logf ''Consumer instance registered (%s).'',
                        emit [NewZookeeperOffsetManager]] cg))))"

definition DefaultConsumerGroup ::
  "default_env \<Rightarrow> string \<Rightarrow> string list \<Rightarrow> string list \<Rightarrow> Config \<Rightarrow> constructed" where
  "DefaultConsumerGroup env name topics zookeeper cfg =
     (case kazoo_NewKazoo env of
        Some err \<Rightarrow> (Returns (None, Some err), [NewKazoo])
      | None \<Rightarrow>
     (case kz_BrokerList env of
        Some err \<Rightarrow> (Returns (None, Some err), [NewKazoo, BrokerList, KazooClose])
      | None \<Rightarrow>
     (case (if ResetOffsets cfg then group_ResetOffsets env else None) of
        Some err \<Rightarrow>
          (Returns (None, Some err), [NewKazoo, BrokerList, GroupResetOffsets, KazooClose])
      | None \<Rightarrow>
     (let t = [NewKazoo, BrokerList] @ (if ResetOffsets cfg then [GroupResetOffsets] else [])
      in
     (case generateConsumerInstanceID env of
        Inl err \<Rightarrow> (Returns (None, Some err), t @ [GenerateConsumerInstanceID, KazooClose])
      | Inr instID \<Rightarrow>
     (case sarama_NewConsumer env of
        Some err \<Rightarrow>
          (Returns (None, Some err), t @ [GenerateConsumerInstanceID, NewConsumer, KazooClose])
      | None \<Rightarrow>
     (case sarama cfg of
        None \<Rightarrow> (Panics, t @ [GenerateConsumerInstanceID, NewConsumer])
      | Some sc \<Rightarrow>
          (case registerConsumerGroup env
                  \<lparr>config = cfg, groupName = name, instance_handle = Some instID,
                   instanceID = instID, consumers = [], singleShutdown = False,
                   stopper_closed = False, messages_closed = False, errors_closed = False\<rparr> of
             (r, (Panic, cg, t')) \<Rightarrow> (Panics, t @ [GenerateConsumerInstanceID, NewConsumer] @ t')
           | (r, (oc, cg, t')) \<Rightarrow>
               (Returns r, t @ [GenerateConsumerInstanceID, NewConsumer] @ t')))))))))"

text \<open>
  A constructor handed to \<^verbatim>\<open>JoinConsumerGroup\<close> is any function of the four arguments;
  it yields what it returns and the effects it has.
\<close>

type_synonym cgConstructor =
  "string \<Rightarrow> string list \<Rightarrow> string list \<Rightarrow> Config \<Rightarrow> constructed"

text \<open>
  The end of \<^verbatim>\<open>JoinConsumerGroup\<close>: an error of the constructor is returned as it is,
  otherwise the top-level loop is started in a goroutine.
\<close>

definition go_topicListConsumer :: "string list \<Rightarrow> constructed \<Rightarrow> constructed" where
  "go_topicListConsumer topics r =
     (case r of
        (Returns (cg, None), t) \<Rightarrow> (Returns (cg, None), t @ [Go_topicListConsumer topics])
      | other \<Rightarrow> other)"

text \<open>
  The configuration in use: \<^verbatim>\<open>NewConfig()\<close> when the argument is nil. The assignment
  \<^verbatim>\<open>config.ClientID = name\<close> goes through the embedded pointer and panics when that
  is nil; a panic of \<^verbatim>\<open>Validate\<close> is a panic of \<^verbatim>\<open>JoinConsumerGroup\<close>.
\<close>

definition config_in_use :: "externals \<Rightarrow> Config option \<Rightarrow> Config" where
  "config_in_use ext cfg = (case cfg of None \<Rightarrow> NewConfig ext | Some c \<Rightarrow> c)"

definition JoinConsumerGroup ::
  "externals \<Rightarrow> default_env \<Rightarrow> string \<Rightarrow> string list \<Rightarrow> string list \<Rightarrow> Config option \<Rightarrow>
   cgConstructor list \<Rightarrow> constructed" where
  "JoinConsumerGroup ext denv name topics zookeeper cfg cgConstructor =
     (if name = []
      then (Returns (None, Some (ConfigurationError ''Empty consumergroup name'')), [])
      else if length topics = 0
      then (Returns (None, Some (ConfigurationError ''No topics provided'')), [])
      else if length zookeeper = 0
      then (Returns (None, Some (ErrorsNew ''you need to provide at least one zookeeper node address'')), [])
      else
        (case sarama (config_in_use ext cfg) of
           None \<Rightarrow> (Panics, [])
         | Some sc \<Rightarrow>
             (let cfg' = (config_in_use ext cfg)\<lparr>sarama := Some (sc\<lparr>ClientID := name\<rparr>)\<rparr>
              in case Validate ext cfg' of
                   Panics \<Rightarrow> (Panics, [])
                 | Blocks \<Rightarrow> (Blocks, [])
                 | Returns (Some err) \<Rightarrow> (Returns (None, Some err), [])
                 | Returns None \<Rightarrow>
                     (case cgConstructor of
                        [] \<Rightarrow>
                          go_topicListConsumer topics
                            (DefaultConsumerGroup denv name topics zookeeper cfg')
                      | [c] \<Rightarrow> go_topicListConsumer topics (c name topics zookeeper cfg')
                      | _ \<Rightarrow>
                          (Returns (None, Some (ErrorsNew ''more than one cgConstructor is not supported'')),
                           [])))))"

section \<open>Auxiliary notions for the statements\<close>

text \<open>
  A consumer group as a constructor leaves it: nothing is shut down, the three
  channels are open, the instance handle is set, and the instance id has the twelve
  bytes that \<^verbatim>\<open>Logf\<close> takes.
\<close>

definition running :: "ConsumerGroup \<Rightarrow> bool" where
  "running cg =
     (\<not> singleShutdown cg \<and> \<not> stopper_closed cg \<and> \<not> messages_closed cg \<and>
      \<not> errors_closed cg \<and> instance_handle cg \<noteq> None \<and> 12 \<le> length (instanceID cg))"

fun is_Log :: "effect \<Rightarrow> bool" where
  "is_Log (Log _) = True"
| "is_Log _ = False"

definition without_logs :: "effect list \<Rightarrow> effect list" where
  "without_logs t = filter (\<lambda>e. \<not> is_Log e) t"

text \<open>
  Successive calls of \<^verbatim>\<open>Close\<close> on one consumer group, one environment per call; a
  call that never returns has no successor.
\<close>

fun Close_calls ::
  "close_env list \<Rightarrow> ConsumerGroup \<Rightarrow> (error option ret \<times> effect list) list \<times> ConsumerGroup" where
  "Close_calls [] cg = ([], cg)"
| "Close_calls (env # envs) cg =
     (case Close env cg of
        (Blocks, cg', t) \<Rightarrow> ([(Blocks, t)], cg')
      | (r, cg', t) \<Rightarrow>
          (case Close_calls envs cg' of (rs, cg'') \<Rightarrow> ((r, t) # rs, cg'')))"

text \<open>The consumer group and configuration of the repository's race test.\<close>

definition test_config :: Config where
  "test_config =
     \<lparr>sarama = Some \<lparr>ClientID = ''ExampleConsumerGroup'', ChannelBufferSize = 256\<rparr>,
      Zookeeper = Some \<lparr>Timeout = Second\<rparr>,
      Initial = OffsetOldest,
      ProcessingTimeout = 60 * Second,
      CommitInterval = 10 * Second,
      ResetOffsets = False\<rparr>"

definition test_cg :: ConsumerGroup where
  "test_cg =
     \<lparr>config = test_config, groupName = ''ExampleConsumerGroup'',
      instance_handle = Some ''test-instance-id'', instanceID = ''test-instance-id'',
      consumers = [''test-instance-id'', ''test-instance-id2''], singleShutdown = False,
      stopper_closed = False, messages_closed = False, errors_closed = False\<rparr>"

definition quiet_close :: close_env where
  "quiet_close =
     \<lparr>wg_Wait_returns = True, offsetManager_Close = None, instance_Deregister = None,
      consumer_Close = None\<rparr>"

text \<open>\<^verbatim>\<open>Logf\<close> does not panic: the handle is nil or the id is long enough.\<close>

definition Logf_ok :: "ConsumerGroup \<Rightarrow> bool" where
  "Logf_ok cg = (instance_handle cg = None \<or> 12 \<le> length (instanceID cg))"

definition test_cg_closed :: ConsumerGroup where
  "test_cg_closed =
     test_cg\<lparr>instance_handle := None, singleShutdown := True, stopper_closed := True,
             messages_closed := True, errors_closed := True\<rparr>"

definition quiet_trace :: "effect list" where
  "quiet_trace =
     [MuLock, CloseStopper, MuUnlock, WgWait, OffsetManagerClose, Deregister,
      Log ''Deregistered consumer instance %s.'', ConsumerClose, CloseMessages, CloseErrors,
      SetInstanceNil, KazooClose]"

text \<open>
  Collaborators that raise no error, and the constructor of the repository's race
  test (\<^verbatim>\<open>newMockConsumerGroup\<close>).
\<close>

definition test_externals :: externals where
  "test_externals =
     \<lparr>sarama_NewConfig = \<lparr>ClientID = ''sarama'', ChannelBufferSize = 256\<rparr>,
      kazoo_NewConfig = \<lparr>Timeout = Second\<rparr>,
      sarama_Validate = (\<lambda>sc. None)\<rparr>"

definition test_default_env :: default_env where
  "test_default_env =
     \<lparr>kazoo_NewKazoo = None, kz_BrokerList = None, group_ResetOffsets = None,
      generateConsumerInstanceID = Inr ''host:0123456789ab'', sarama_NewConsumer = None,
      group_Exists = Inr True, group_Create = None, instance_Register = None\<rparr>"

definition newMockConsumerGroup :: cgConstructor where
  "newMockConsumerGroup name topics zookeeper cfg =
     (Returns
        (Some \<lparr>config = cfg, groupName = name, instance_handle = Some ''test-instance-id'',
               instanceID = ''test-instance-id'', consumers = [], singleShutdown = False,
               stopper_closed = False, messages_closed = False, errors_closed = False\<rparr>,
         None),
      [NewZookeeperOffsetManager])"

text \<open>The waits and claim attempts among the effects of a run, and the effects a claim loop can have.\<close>

definition is_claim_attempt :: "effect \<Rightarrow> bool" where
  "is_claim_attempt e = (case e of TimeAfter1s \<Rightarrow> True | ClaimPartition t p \<Rightarrow> True | _ \<Rightarrow> False)"

definition claim_attempts :: "effect list \<Rightarrow> effect list" where
  "claim_attempts t = filter is_claim_attempt t"

definition num_claims :: "effect list \<Rightarrow> nat" where
  "num_claims t = length (filter (\<lambda>e. case e of ClaimPartition t p \<Rightarrow> True | _ \<Rightarrow> False) t)"

definition claim_phase_effect :: "effect \<Rightarrow> bool" where
  "claim_phase_effect e =
     (case e of TimeAfter1s \<Rightarrow> True | ClaimPartition t p \<Rightarrow> True | Log f \<Rightarrow> True
      | SendError ce \<Rightarrow> True | _ \<Rightarrow> False)"

text \<open>
  Stream requests as in the spec's out-of-range scenario: the stored offset 100 is
  out of range, any other offset opens stream 1. A second broker refuses every
  request.
\<close>

definition test_pc_env :: pc_env where
  "test_pc_env =
     \<lparr>claim_events = (\<lambda>n. TimerFired None),
      errors_accepts = True,
      instance_ReleasePartition = None,
      offsetManager_InitializePartition = Inr 0,
      consumer_ConsumePartition =
        (\<lambda>n topic partn offset. if offset = 100 then Inl ErrOffsetOutOfRange else Inr 1),
      loop_events = [CtxDoneEv],
      offsetManager_FinalizePartition = None\<rparr>"

definition refusing_pc_env :: pc_env where
  "refusing_pc_env =
     test_pc_env\<lparr>consumer_ConsumePartition := (\<lambda>n topic partn offset. Inl (External 1))\<rparr>"

text \<open>
  Every claim attempt meets a partition that another instance still holds; the
  consumer group has a processing timeout of one and a half seconds.
\<close>

definition contended_pc_env :: pc_env where
  "contended_pc_env =
     test_pc_env\<lparr>claim_events := (\<lambda>n. TimerFired (Some ErrPartitionClaimedByOther))\<rparr>"

definition cg_1500ms :: ConsumerGroup where
  "cg_1500ms = test_cg\<lparr>config := test_config\<lparr>ProcessingTimeout := 1500000000\<rparr>\<rparr>"

text \<open>
  The partition of the race test's mock (id 0, leader 0) and the four partitions of
  the spec's fan-out scenario.
\<close>

definition test_partition :: "int32 \<Rightarrow> partitionLeader" where
  "test_partition i = \<lparr>pl_id = i, pl_leader = 0, pl_partition = \<lparr>ID = i\<rparr>\<rparr>"

definition four_partitions :: "partitionLeader list" where
  "four_partitions = [test_partition 0, test_partition 1, test_partition 2, test_partition 3]"

text \<open>
  Runs in which the \<^verbatim>\<open>errors\<close> channel is full and nobody reads it: a topic consumer
  whose partition query fails with the error of the race test's mock; a partition
  consumer whose claim attempts all fail; a partition consumer whose claim succeeds,
  whose offset query fails and whose release fails.
\<close>

definition full_errors_tc_env :: tc_env where
  "full_errors_tc_env =
     \<lparr>ctx_Done_at_entry = False,
      kazoo_TopicPartitions = Inl (ErrorsNew ''test error''),
      partition_Leader = (\<lambda>p. Inr 0),
      tc_errors_accepts = False,
      partitionConsumers_done = True\<rparr>"

definition full_errors_claim_env :: pc_env where
  "full_errors_claim_env = contended_pc_env\<lparr>errors_accepts := False\<rparr>"

definition full_errors_release_env :: pc_env where
  "full_errors_release_env =
     test_pc_env\<lparr>errors_accepts := False,
                 offsetManager_InitializePartition := Inl (External 3),
                 instance_ReleasePartition := Some (External 2)\<rparr>"

text \<open>Every forward of the main loop happens with the generation context cancelled.\<close>

definition forwards_cancelled :: "loop_event list \<Rightarrow> bool" where
  "forwards_cancelled evs =
     list_all (\<lambda>ev. case ev of ErrorsEv err sel \<Rightarrow> ctx_Done sel
                     | MessagesEv message sel \<Rightarrow> ctx_Done sel | _ \<Rightarrow> True) evs"

section \<open>What a worker does\<close>

text \<open>
  The effects by which a goroutine acts on the mutex, on a channel as its owner, or on
  a wait-group, against all the others: a worker makes the others at any time.
\<close>

fun plain :: "effect \<Rightarrow> bool" where
  "plain MuLock = False"
| "plain MuUnlock = False"
| "plain WgWait = False"
| "plain CloseStopper = False"
| "plain CloseMessages = False"
| "plain CloseErrors = False"
| "plain (Go_partitionConsumer topic partn) = False"
| "plain LocalWgWait = False"
| "plain WgDone = False"
| "plain _ = True"

text \<open>
  What is left of a worker's run is in order when it calls \<^verbatim>\<open>Done\<close> last, calls it
  with partition consumers out (\<open>pending\<close>) only after the local \<^verbatim>\<open>wg.Wait()\<close>, and
  touches neither the mutex, nor \<^verbatim>\<open>cg.wg.Wait()\<close>, nor the closing of a channel.
\<close>

fun worker_todo :: "bool \<Rightarrow> effect list \<Rightarrow> bool" where
  "worker_todo pending [] = True"
| "worker_todo pending (e # t) =
     (if plain e then worker_todo pending t
      else
        (case e of
           Go_partitionConsumer topic partn \<Rightarrow> worker_todo True t
         | LocalWgWait \<Rightarrow> worker_todo False t
         | WgDone \<Rightarrow> \<not> pending \<and> t = []
         | _ \<Rightarrow> False))"

text \<open>
  A run from \<open>cg\<close> that leaves the consumer group as it is and makes plain effects
  only; and a run from \<open>cg\<close> that, followed by the deferred \<^verbatim>\<open>Done\<close> unless the
  goroutine stays blocked, is in order.
\<close>

definition plain_run :: "ConsumerGroup \<Rightarrow> run \<Rightarrow> bool" where
  "plain_run cg r = (fst (snd r) = cg \<and> list_all plain (trace_of r))"


definition joining_run :: "ConsumerGroup \<Rightarrow> run \<Rightarrow> bool" where
  "joining_run cg r =
     (fst (snd r) = cg \<and>
      worker_todo False
        (trace_of r @ (if outcome_of r = Blocked \<or> outcome_of r = Waiting then [] else [WgDone])))"


section \<open>Close, the top-level loop and the workers, running together\<close>

text \<open>
  The goroutines of one consumer group share the mutex \<^verbatim>\<open>cg.mu\<close>, the channel
  \<^verbatim>\<open>cg.stopper\<close>, the wait-group \<^verbatim>\<open>cg.wg\<close> and the two output channels. A topic
  consumer is what is left of its run (the effects it still has to make, in order),
  the counter of its local wait-group, and the partition consumers it has started; a
  partition consumer is what is left of its run. \<open>t_done\<close> and \<open>p_done\<close> say that the
  goroutine has called \<^verbatim>\<open>Done\<close> on the wait-group that counts it.
\<close>

record pworker =
  p_todo :: "effect list"
  p_done :: bool

record tworker =
  t_todo :: "effect list"
  t_done :: bool
  t_wg :: nat
  t_parts :: "pworker list"

text \<open>
  Where \<^verbatim>\<open>topicListConsumer\<close> stands: before \<^verbatim>\<open>cg.mu.Lock()\<close>; holding the mutex, before
  the \<^verbatim>\<open>select\<close> that looks at the stopper; after it, before \<^verbatim>\<open>WatchInstances\<close>
  returns; in the \<^verbatim>\<open>for\<close> over the topics still to start; in the second \<^verbatim>\<open>select\<close>; in
  \<^verbatim>\<open>cg.wg.Wait()\<close>; returned.
\<close>

datatype loop_at =
    BeforeLock
  | HoldsLock
  | Watching
  | Spawning "string list"
  | InSelect
  | Joining
  | Gone

datatype holder = TheLoop | TheCloser

text \<open>
  The shared state: who holds \<^verbatim>\<open>cg.mu\<close>, whether each channel is closed, the counter
  of \<^verbatim>\<open>cg.wg\<close>, the topic consumers started so far, where the top-level loop stands,
  what is left of the first call of \<^verbatim>\<open>Close\<close>, and whether a goroutine has panicked on
  a channel or a wait-group: a send on a closed channel, the close of a closed
  channel, a \<^verbatim>\<open>Done\<close> on a counter that is zero.
\<close>

record system =
  sys_topics :: "string list"
  mu :: "holder option"
  stopper_ch :: bool
  messages_ch :: bool
  errors_ch :: bool
  cg_wg :: nat
  topic_workers :: "tworker list"
  loop_pc :: loop_at
  close_todo :: "effect list"
  fault :: bool

text \<open>What an effect does to the three channels, whichever goroutine makes it.\<close>

definition channel_effect :: "effect \<Rightarrow> system \<Rightarrow> system" where
  "channel_effect e s =
     (case e of
        CloseStopper \<Rightarrow> if stopper_ch s then s\<lparr>fault := True\<rparr> else s\<lparr>stopper_ch := True\<rparr>
      | CloseMessages \<Rightarrow> if messages_ch s then s\<lparr>fault := True\<rparr> else s\<lparr>messages_ch := True\<rparr>
      | CloseErrors \<Rightarrow> if errors_ch s then s\<lparr>fault := True\<rparr> else s\<lparr>errors_ch := True\<rparr>
      | SendError ce \<Rightarrow> if errors_ch s then s\<lparr>fault := True\<rparr> else s
      | ForwardError err \<Rightarrow> if errors_ch s then s\<lparr>fault := True\<rparr> else s
      | ForwardMessage message \<Rightarrow> if messages_ch s then s\<lparr>fault := True\<rparr> else s
      | _ \<Rightarrow> s)"

text \<open>
  One move of one goroutine. The moves of \<^verbatim>\<open>topicListConsumer\<close> are its
  synchronisation points, with what the metadata store answers; a move of \<^verbatim>\<open>Close\<close>, of
  a topic consumer or of a partition consumer is the next effect of its run. The
  generation context is not part of the state: a \<^verbatim>\<open>select\<close> case that waits for it may
  fire at any time, and the runs of the workers are those of any environment, which
  can only add interleavings. Of \<^verbatim>\<open>topicListConsumer\<close> the moves are what it does to the
  mutex, the stopper and \<^verbatim>\<open>cg.wg\<close>; its log lines, the rate limiter, \<^verbatim>\<open>cancel()\<close> and its
  calls on the instance leave the shared state as it is. A panic of a goroutine ends
  the program; here the other goroutines go on, which again only adds interleavings.
\<close>

datatype move =
    Lock
  | CheckStopper
  | WatchInstances "error + string list"
  | StartTopicConsumer tc_env ConsumerGroup
  | Unlock
  | SelectCtxDone
  | SelectStopper
  | SelectConsumerChanges
  | WgWaitReturns
  | CloseStep
  | TopicStep nat pc_env ConsumerGroup
  | PartitionStep nat nat

text \<open>
  \<^verbatim>\<open>topicListConsumer\<close>. It takes the mutex, returns when the stopper is closed, and
  otherwise, still holding the mutex, asks for the registered instances and starts one
  topic consumer per topic, each counted in \<^verbatim>\<open>cg.wg\<close> before it is started; then it
  gives the mutex back and waits. \<open>StartTopicConsumer env cg\<close> starts the consumer of
  the next topic, whose run is that of \<^verbatim>\<open>topicConsumer\<close> in the environment \<open>env\<close>
  reading the consumer group as \<open>cg\<close>.
\<close>

definition topicListConsumer :: "move \<Rightarrow> system \<Rightarrow> system option" where
  "topicListConsumer m s =
     (case m of
        Lock \<Rightarrow>
          if loop_pc s = BeforeLock \<and> mu s = None
          then Some (s\<lparr>mu := Some TheLoop, loop_pc := HoldsLock\<rparr>) else None
      | CheckStopper \<Rightarrow>
          if loop_pc s = HoldsLock
          then Some (if stopper_ch s then s\<lparr>mu := None, loop_pc := Gone\<rparr>
                     else s\<lparr>loop_pc := Watching\<rparr>)
          else None
      | WatchInstances r \<Rightarrow>
          if loop_pc s = Watching
          then Some (case r of
                       Inl err \<Rightarrow> s\<lparr>mu := None, loop_pc := Gone\<rparr>
                     | Inr instances \<Rightarrow> s\<lparr>loop_pc := Spawning (sys_topics s)\<rparr>)
          else None
      | StartTopicConsumer env cg \<Rightarrow>
          (case loop_pc s of
             Spawning (topic # topics) \<Rightarrow>
               Some (s\<lparr>cg_wg := cg_wg s + 1,
                       topic_workers := topic_workers s @
                         [\<lparr>t_todo = trace_of (topicConsumer env topic cg), t_done = False,
                           t_wg = 0, t_parts = []\<rparr>],
                       loop_pc := Spawning topics\<rparr>)
           | _ \<Rightarrow> None)
      | Unlock \<Rightarrow>
          if loop_pc s = Spawning [] then Some (s\<lparr>mu := None, loop_pc := InSelect\<rparr>) else None
      | SelectCtxDone \<Rightarrow>
          if loop_pc s = InSelect then Some (s\<lparr>loop_pc := Joining\<rparr>) else None
      | SelectStopper \<Rightarrow>
          if loop_pc s = InSelect \<and> stopper_ch s then Some (s\<lparr>loop_pc := Gone\<rparr>) else None
      | SelectConsumerChanges \<Rightarrow>
          if loop_pc s = InSelect then Some (s\<lparr>loop_pc := Joining\<rparr>) else None
      | WgWaitReturns \<Rightarrow>
          if loop_pc s = Joining \<and> cg_wg s = 0 then Some (s\<lparr>loop_pc := BeforeLock\<rparr>) else None
      | _ \<Rightarrow> None)"

text \<open>
  The next effect of \<^verbatim>\<open>Close\<close>: \<^verbatim>\<open>cg.mu.Lock()\<close> waits for the mutex and
  \<^verbatim>\<open>cg.wg.Wait()\<close> for the counter to be zero.
\<close>

definition close_step :: "system \<Rightarrow> system option" where
  "close_step s =
     (case close_todo s of
        [] \<Rightarrow> None
      | e # rest \<Rightarrow>
          (case e of
             MuLock \<Rightarrow>
               if mu s = None then Some (s\<lparr>mu := Some TheCloser, close_todo := rest\<rparr>) else None
           | MuUnlock \<Rightarrow> Some (s\<lparr>mu := None, close_todo := rest\<rparr>)
           | WgWait \<Rightarrow> if cg_wg s = 0 then Some (s\<lparr>close_todo := rest\<rparr>) else None
           | _ \<Rightarrow> Some ((channel_effect e s)\<lparr>close_todo := rest\<rparr>)))"

text \<open>
  The next effect of topic consumer \<open>i\<close>. Starting a partition consumer counts it in
  the local wait-group first; its run is that of \<^verbatim>\<open>partitionConsumer\<close> in the
  environment \<open>env\<close> reading the consumer group as \<open>cg\<close>. The local \<^verbatim>\<open>wg.Wait()\<close> waits
  for the local counter to be zero; \<^verbatim>\<open>cg.wg.Done()\<close> takes one off the counter of
  \<^verbatim>\<open>cg.wg\<close>.
\<close>

definition topic_step :: "nat \<Rightarrow> pc_env \<Rightarrow> ConsumerGroup \<Rightarrow> system \<Rightarrow> system option" where
  "topic_step i env cg s =
     (if i < length (topic_workers s) then
        (let w = topic_workers s ! i in
         case t_todo w of
           [] \<Rightarrow> None
         | e # rest \<Rightarrow>
             (case e of
                Go_partitionConsumer topic partn \<Rightarrow>
                  Some (s\<lparr>topic_workers := (topic_workers s)
                            [i := w\<lparr>t_todo := rest, t_wg := t_wg w + 1,
                                    t_parts := t_parts w @
                                      [\<lparr>p_todo = trace_of (partitionConsumer env topic partn cg),
                                        p_done = False\<rparr>]\<rparr>]\<rparr>)
              | LocalWgWait \<Rightarrow>
                  if t_wg w = 0
                  then Some (s\<lparr>topic_workers := (topic_workers s)[i := w\<lparr>t_todo := rest\<rparr>]\<rparr>)
                  else None
              | WgDone \<Rightarrow>
                  Some (s\<lparr>cg_wg := cg_wg s - 1,
                          fault := (fault s \<or> cg_wg s = 0),
                          topic_workers := (topic_workers s)
                            [i := w\<lparr>t_todo := rest, t_done := True\<rparr>]\<rparr>)
              | _ \<Rightarrow>
                  Some ((channel_effect e s)
                          \<lparr>topic_workers := (topic_workers s)[i := w\<lparr>t_todo := rest\<rparr>]\<rparr>)))
      else None)"

text \<open>
  The next effect of partition consumer \<open>j\<close> of topic consumer \<open>i\<close>; its \<^verbatim>\<open>wg.Done()\<close>
  takes one off the local counter of that topic consumer.
\<close>

definition partition_step :: "nat \<Rightarrow> nat \<Rightarrow> system \<Rightarrow> system option" where
  "partition_step i j s =
     (if i < length (topic_workers s) \<and> j < length (t_parts (topic_workers s ! i)) then
        (let w = topic_workers s ! i; p = t_parts w ! j in
         case p_todo p of
           [] \<Rightarrow> None
         | e # rest \<Rightarrow>
             (case e of
                WgDone \<Rightarrow>
                  Some (s\<lparr>fault := (fault s \<or> t_wg w = 0),
                          topic_workers := (topic_workers s)
                            [i := w\<lparr>t_wg := t_wg w - 1,
                                    t_parts := (t_parts w)
                                      [j := p\<lparr>p_todo := rest, p_done := True\<rparr>]\<rparr>]\<rparr>)
              | _ \<Rightarrow>
                  Some ((channel_effect e s)
                          \<lparr>topic_workers := (topic_workers s)
                             [i := w\<lparr>t_parts := (t_parts w)[j := p\<lparr>p_todo := rest\<rparr>]\<rparr>]\<rparr>)))
      else None)"

definition fire :: "move \<Rightarrow> system \<Rightarrow> system option" where
  "fire m s =
     (case m of
        CloseStep \<Rightarrow> close_step s
      | TopicStep i env cg \<Rightarrow> topic_step i env cg s
      | PartitionStep i j \<Rightarrow> partition_step i j s
      | _ \<Rightarrow> topicListConsumer m s)"

text \<open>A schedule is a list of moves; it runs as long as each move can be made.\<close>

fun run_moves :: "move list \<Rightarrow> system \<Rightarrow> system option" where
  "run_moves [] s = Some s"
| "run_moves (m # ms) s = (case fire m s of None \<Rightarrow> None | Some s' \<Rightarrow> run_moves ms s')"

text \<open>
  The state in which \<^verbatim>\<open>JoinConsumerGroup\<close> leaves the consumer group \<open>cg\<close>: the top-level
  loop is started and has not taken the mutex yet, no worker exists, and a first call
  of \<^verbatim>\<open>Close\<close>, whenever it comes, has the effects of \<open>Close env cg\<close>.
\<close>

definition joined_group :: "close_env \<Rightarrow> ConsumerGroup \<Rightarrow> string list \<Rightarrow> system" where
  "joined_group env cg topics =
     \<lparr>sys_topics = topics, mu = None, stopper_ch = stopper_closed cg,
      messages_ch = messages_closed cg, errors_ch = errors_closed cg, cg_wg = 0,
      topic_workers = [], loop_pc = BeforeLock, close_todo = snd (snd (Close env cg)),
      fault = False\<rparr>"

text \<open>
  Every worker has joined: each topic consumer and each partition consumer has called
  \<^verbatim>\<open>Done\<close> and has no effect left to make.
\<close>

definition workers_joined :: "system \<Rightarrow> bool" where
  "workers_joined s =
     list_all
       (\<lambda>w. t_done w \<and> t_todo w = [] \<and> list_all (\<lambda>p. p_done p \<and> p_todo p = []) (t_parts w))
       (topic_workers s)"

text \<open>The effects of a shutdown that are not log lines, in order.\<close>

definition shutdown_sequence :: "effect list" where
  "shutdown_sequence =
     [MuLock, CloseStopper, MuUnlock, WgWait, OffsetManagerClose, Deregister,
      ConsumerClose, CloseMessages, CloseErrors, SetInstanceNil, KazooClose]"

text \<open>
  What holds of the workers in every state: the local counter of a topic consumer is
  the number of its partition consumers that have not called \<^verbatim>\<open>Done\<close>; a worker that
  has called \<^verbatim>\<open>Done\<close> has nothing left to do; what is left of a run calls \<^verbatim>\<open>Done\<close> last
  and, in a topic consumer with partition consumers out, after the local \<^verbatim>\<open>wg.Wait()\<close>.
\<close>

definition pworker_ok :: "pworker \<Rightarrow> bool" where
  "pworker_ok p = ((p_done p \<longrightarrow> p_todo p = []) \<and> worker_todo False (p_todo p))"

definition tworker_ok :: "tworker \<Rightarrow> bool" where
  "tworker_ok w =
     (length (filter (\<lambda>p. \<not> p_done p) (t_parts w)) = t_wg w \<and>
      list_all pworker_ok (t_parts w) \<and>
      (t_done w \<longrightarrow> t_todo w = [] \<and> t_wg w = 0) \<and>
      worker_todo (0 < t_wg w) (t_todo w))"

text \<open>
  What holds of the shared state in every state, \<open>k\<close> being the number of effects of
  the shutdown sequence that \<^verbatim>\<open>Close\<close> has made.
\<close>

fun holds_mutex :: "loop_at \<Rightarrow> bool" where
  "holds_mutex HoldsLock = True"
| "holds_mutex Watching = True"
| "holds_mutex (Spawning topics) = True"
| "holds_mutex _ = False"

fun saw_stopper_open :: "loop_at \<Rightarrow> bool" where
  "saw_stopper_open Watching = True"
| "saw_stopper_open (Spawning topics) = True"
| "saw_stopper_open _ = False"

definition system_ok :: "nat \<Rightarrow> system \<Rightarrow> bool" where
  "system_ok k s =
     (\<not> fault s \<and>
      list_all tworker_ok (topic_workers s) \<and>
      length (filter (\<lambda>w. \<not> t_done w) (topic_workers s)) = cg_wg s \<and>
      k \<le> 11 \<and> without_logs (close_todo s) = drop k shutdown_sequence \<and>
      (mu s = Some TheCloser \<longleftrightarrow> k = 1 \<or> k = 2) \<and>
      (stopper_ch s \<longleftrightarrow> 2 \<le> k) \<and>
      (messages_ch s \<longleftrightarrow> 8 \<le> k) \<and>
      (errors_ch s \<longleftrightarrow> 9 \<le> k) \<and>
      (4 \<le> k \<longrightarrow> cg_wg s = 0) \<and>
      (mu s = Some TheLoop \<longleftrightarrow> holds_mutex (loop_pc s)) \<and>
      (saw_stopper_open (loop_pc s) \<longrightarrow> \<not> stopper_ch s))"

text \<open>
  The repository's race test: \<^verbatim>\<open>Close\<close> is called while the top-level loop waits for
  \<^verbatim>\<open>WatchInstances\<close> with the mutex held. The loop starts the topic consumer, whose
  partition query fails and which sends the error; \<^verbatim>\<open>Close\<close> closes the stopper and
  waits; the topic consumer runs to its end; the loop sees the stopper closed;
  \<^verbatim>\<open>Close\<close> goes on to its end.
\<close>

definition race_tc_env :: tc_env where
  "race_tc_env = full_errors_tc_env\<lparr>tc_errors_accepts := True\<rparr>"

definition race_schedule :: "move list" where
  "race_schedule =
     [Lock, CheckStopper, WatchInstances (Inr [''test-instance-id'', ''test-instance-id2'']),
      StartTopicConsumer race_tc_env test_cg, Unlock,
      CloseStep, CloseStep, CloseStep,
      TopicStep 0 test_pc_env test_cg, TopicStep 0 test_pc_env test_cg,
      TopicStep 0 test_pc_env test_cg, TopicStep 0 test_pc_env test_cg,
      TopicStep 0 test_pc_env test_cg, TopicStep 0 test_pc_env test_cg,
      SelectStopper,
      CloseStep, CloseStep, CloseStep, CloseStep, CloseStep, CloseStep, CloseStep, CloseStep,
      CloseStep]"

definition race_end :: system where
  "race_end =
     \<lparr>sys_topics = [''Topic''], mu = None, stopper_ch = True, messages_ch = True,
      errors_ch = True, cg_wg = 0,
      topic_workers = [\<lparr>t_todo = [], t_done = True, t_wg = 0, t_parts = []\<rparr>],
      loop_pc = Gone, close_todo = [], fault = False\<rparr>"


section \<open>Properties\<close>

lemmas step_defs =
  emit_def finish_def andThen_def with_defer_def Logf_def close_stopper_def close_messages_def
  close_errors_def wg_Wait_def instance_call_def set_instance_nil_def send_errors_def
  prepend_def

subsection \<open>Running steps\<close>

lemma prepend_run [simp]: "prepend t (oc, cg, t') = (oc, cg, t @ t')"
  by (simp add: prepend_def)

lemma prepend_Nil [simp]: "prepend [] r = r"
  by (cases r) simp

lemma prepend_prepend [simp]: "prepend t (prepend t' r) = prepend (t @ t') r"
  by (cases r) simp

lemma outcome_of_prepend [simp]: "outcome_of (prepend t r) = outcome_of r"
  by (cases r) (simp add: outcome_of_def)

lemma trace_of_prepend [simp]: "trace_of (prepend t r) = t @ trace_of r"
  by (cases r) (simp add: trace_of_def)

lemma outcome_of_run [simp]: "outcome_of (oc, cg, t) = oc"
  by (simp add: outcome_of_def)

lemma trace_of_run [simp]: "trace_of (oc, cg, t) = t"
  by (simp add: trace_of_def)

lemma emit_run [simp]: "emit es cg = (Continue, cg, es)"
  by (simp add: emit_def)

lemma finish_run [simp]: "finish oc cg = (oc, cg, [])"
  by (simp add: finish_def)

lemma andThen_emit [simp]: "andThen (emit es) g cg = prepend es (g cg)"
  by (cases "g cg") (simp add: andThen_def emit_def)

lemma andThen_finish [simp]: "oc \<noteq> Continue \<Longrightarrow> andThen (finish oc) g cg = (oc, cg, [])"
  by (cases oc) (simp_all add: andThen_def finish_def)

lemma Logf_run: "Logf_ok cg \<Longrightarrow> Logf f cg = (Continue, cg, [Log f])"
  by (auto simp: Logf_ok_def Logf_def)

lemma andThen_Logf: "Logf_ok cg \<Longrightarrow> andThen (Logf f) g cg = prepend [Log f] (g cg)"
  by (cases "g cg") (simp add: andThen_def Logf_run)

lemma without_logs_simps [simp]:
  "without_logs [] = []"
  "without_logs (Log f # t) = without_logs t"
  "\<not> is_Log e \<Longrightarrow> without_logs (e # t) = e # without_logs t"
  "without_logs (t @ t') = without_logs t @ without_logs t'"
  by (simp_all add: without_logs_def)

subsection \<open>Opening the broker stream\<close>

lemma consumePartition_direct:
  assumes "Logf_ok cg"
    and "consumer_ConsumePartition env n topic partn nextOffset \<noteq> Inl ErrOffsetOutOfRange"
  shows "consumePartition env n topic partn nextOffset cg =
           (consumer_ConsumePartition env n topic partn nextOffset, n + 1, Continue, cg,
            ConsumePartition topic partn nextOffset #
              (case consumer_ConsumePartition env n topic partn nextOffset of
                 Inl err \<Rightarrow> [Log ''%s/%d :: FAILED to start partition consumer: %s'']
               | Inr consumer \<Rightarrow> []))"
  using assms
  by (cases "consumer_ConsumePartition env n topic partn nextOffset")
     (simp_all add: consumePartition_def andThen_Logf)

lemma consumePartition_fallback:
  assumes "Logf_ok cg"
    and "consumer_ConsumePartition env n topic partn nextOffset = Inl ErrOffsetOutOfRange"
    and "fb = (if Initial (config cg) = OffsetOldest then OffsetOldest else OffsetNewest)"
  shows "consumePartition env n topic partn nextOffset cg =
           (consumer_ConsumePartition env (n + 1) topic partn fb, n + 2, Continue, cg,
            [ConsumePartition topic partn nextOffset,
             Log ''%s/%d :: Partition consumer offset out of Range.'',
             Log (if Initial (config cg) = OffsetOldest
                  then ''%s/%d :: Partition consumer offset reset to oldest available offset.''
                  else ''%s/%d :: Partition consumer offset reset to newest available offset.''),
             ConsumePartition topic partn fb] @
              (case consumer_ConsumePartition env (n + 1) topic partn fb of
                 Inl err \<Rightarrow> [Log ''%s/%d :: FAILED to start partition consumer: %s'']
               | Inr consumer \<Rightarrow> []))"
proof (cases "consumer_ConsumePartition env (n + 1) topic partn fb")
  case (Inl a)
  with assms show ?thesis
    by (simp add: consumePartition_def andThen_Logf)
next
  case (Inr b)
  with assms show ?thesis
    by (simp add: consumePartition_def andThen_Logf)
qed

lemma andThen_emit_Nil [simp]: "andThen f (emit []) cg = f cg"
  by (cases "f cg" rule: prod_cases3) (simp add: andThen_def split: outcome.splits)

lemma consumePartition_cases:
  assumes "Logf_ok cg"
  obtains r n' t where
    "consumePartition env n topic partn nextOffset cg =
       (r, n', Continue, cg, ConsumePartition topic partn nextOffset # t)"
proof (cases "consumer_ConsumePartition env n topic partn nextOffset = Inl ErrOffsetOutOfRange")
  case True
  from consumePartition_fallback [OF assms True refl] that show ?thesis
    by simp
next
  case False
  from consumePartition_direct [OF assms False] that show ?thesis
    by simp
qed

lemma startPartitionConsumer_error:
  assumes "Logf_ok cg" and "fst (consumePartition env 0 topic partn nextOffset cg) = Inl err"
  shows "startPartitionConsumer env topic partn nextOffset cg =
           (Return, cg,
            trace_of (snd (snd (consumePartition env 0 topic partn nextOffset cg))) @
              [Log ''%s/%d :: FAILED to start partition consumer: %s''])"
proof -
  obtain r n' t where c:
    "consumePartition env 0 topic partn nextOffset cg =
       (r, n', Continue, cg, ConsumePartition topic partn nextOffset # t)"
    using consumePartition_cases [OF assms(1)] by blast
  with assms(2) have "r = Inl err" by simp
  with c assms(1) show ?thesis
    by (simp add: startPartitionConsumer_def andThen_Logf)
qed

lemma startPartitionConsumer_first:
  assumes "Logf_ok cg"
  shows "\<exists>t. trace_of (startPartitionConsumer env topic partn nextOffset cg) =
               ConsumePartition topic partn nextOffset # t"
proof -
  obtain r n' t where c:
    "consumePartition env 0 topic partn nextOffset cg =
       (r, n', Continue, cg, ConsumePartition topic partn nextOffset # t)"
    using consumePartition_cases [OF assms] by blast
  then show ?thesis
    by (cases r) (simp_all add: startPartitionConsumer_def)
qed

lemma reestablish_error:
  assumes "Logf_ok cg" and "fst (consumePartition env n topic partn lastOffset cg) = Inl err"
  shows "\<exists>n'. reestablish env n topic partn lastOffset cg =
           (Inl err, n', Continue, cg,
            Log ''%s/%d :: Consumer encountered an invalid state: re-establishing consumption of partition.'' #
              trace_of (snd (snd (consumePartition env n topic partn lastOffset cg))))"
proof -
  obtain r n' t where c:
    "consumePartition env n topic partn lastOffset cg =
       (r, n', Continue, cg, ConsumePartition topic partn lastOffset # t)"
    using consumePartition_cases [OF assms(1)] by blast
  with assms(2) have "r = Inl err" by simp
  with c show ?thesis
    by (simp add: reestablish_def Logf_run [OF assms(1)])
qed

lemma partitionConsumerLoop_reestablish_error:
  assumes "Logf_ok cg" and "fst (consumePartition env n topic partn lastOffset cg) = Inl err"
  shows "partitionConsumerLoop env topic partn n lastOffset (ErrorsNil # evs) cg =
           prepend
             (Log ''%s/%d :: Consumer encountered an invalid state: re-establishing consumption of partition.'' #
                trace_of (snd (snd (consumePartition env n topic partn lastOffset cg))))
             (stopPartitionConsumer env topic partn lastOffset cg)"
    and "partitionConsumerLoop env topic partn n lastOffset (MessagesNil # evs) cg =
           prepend
             (Log ''%s/%d :: Consumer encountered an invalid state: re-establishing consumption of partition.'' #
                trace_of (snd (snd (consumePartition env n topic partn lastOffset cg))))
             (stopPartitionConsumer env topic partn lastOffset cg)"
  using reestablish_error [OF assms] by auto

text \<open>
  C8. \<^verbatim>\<open>consumePartition\<close> first asks the broker for a stream at \<^verbatim>\<open>nextOffset\<close>. When the
  answer is anything but the out-of-range error, that is the only call and its answer
  is returned. When the answer is the out-of-range error there is exactly one more
  call, at \<^verbatim>\<open>OffsetOldest\<close> if \<^verbatim>\<open>Initial\<close> is \<^verbatim>\<open>OffsetOldest\<close> and at \<^verbatim>\<open>OffsetNewest\<close>
  otherwise, and its answer is returned. When \<^verbatim>\<open>consumePartition\<close> returns an error to
  the partition consumer at start, the worker returns with no further call to the
  broker; when it returns an error while the main loop re-establishes the stream, the
  loop is left for the code after it, whatever events would follow.
\<close>

theorem consumePartition_retry:
  assumes "Logf_ok cg"
  shows "(consumer_ConsumePartition env n topic partn nextOffset \<noteq> Inl ErrOffsetOutOfRange \<longrightarrow>
           (case consumePartition env n topic partn nextOffset cg of (r, n', oc, cg', t) \<Rightarrow>
              r = consumer_ConsumePartition env n topic partn nextOffset \<and> n' = n + 1 \<and>
              oc = Continue \<and> cg' = cg \<and>
              without_logs t = [ConsumePartition topic partn nextOffset])) \<and>
         (consumer_ConsumePartition env n topic partn nextOffset = Inl ErrOffsetOutOfRange \<longrightarrow>
           (case consumePartition env n topic partn nextOffset cg of (r, n', oc, cg', t) \<Rightarrow>
              r = consumer_ConsumePartition env (n + 1) topic partn
                    (if Initial (config cg) = OffsetOldest then OffsetOldest else OffsetNewest) \<and>
              n' = n + 2 \<and> oc = Continue \<and> cg' = cg \<and>
              without_logs t =
                [ConsumePartition topic partn nextOffset,
                 ConsumePartition topic partn
                   (if Initial (config cg) = OffsetOldest then OffsetOldest else OffsetNewest)])) \<and>
         (\<forall>err. fst (consumePartition env 0 topic partn nextOffset cg) = Inl err \<longrightarrow>
            outcome_of (startPartitionConsumer env topic partn nextOffset cg) = Return \<and>
            without_logs (trace_of (startPartitionConsumer env topic partn nextOffset cg)) =
              without_logs (trace_of (snd (snd (consumePartition env 0 topic partn nextOffset cg))))) \<and>
         (\<forall>err. fst (consumePartition env n topic partn nextOffset cg) = Inl err \<longrightarrow>
            partitionConsumerLoop env topic partn n nextOffset (ErrorsNil # evs) cg =
              prepend
                (Log ''%s/%d :: Consumer encountered an invalid state: re-establishing consumption of partition.'' #
                   trace_of (snd (snd (consumePartition env n topic partn nextOffset cg))))
                (stopPartitionConsumer env topic partn nextOffset cg) \<and>
            partitionConsumerLoop env topic partn n nextOffset (MessagesNil # evs) cg =
              prepend
                (Log ''%s/%d :: Consumer encountered an invalid state: re-establishing consumption of partition.'' #
                   trace_of (snd (snd (consumePartition env n topic partn nextOffset cg))))
                (stopPartitionConsumer env topic partn nextOffset cg))"
proof (intro conjI impI allI)
  assume a: "consumer_ConsumePartition env n topic partn nextOffset \<noteq> Inl ErrOffsetOutOfRange"
  show "case consumePartition env n topic partn nextOffset cg of (r, n', oc, cg', t) \<Rightarrow>
          r = consumer_ConsumePartition env n topic partn nextOffset \<and> n' = n + 1 \<and>
          oc = Continue \<and> cg' = cg \<and>
          without_logs t = [ConsumePartition topic partn nextOffset]"
    by (simp add: consumePartition_direct [OF assms a] split: sum.splits)
next
  assume a: "consumer_ConsumePartition env n topic partn nextOffset = Inl ErrOffsetOutOfRange"
  show "case consumePartition env n topic partn nextOffset cg of (r, n', oc, cg', t) \<Rightarrow>
          r = consumer_ConsumePartition env (n + 1) topic partn
                (if Initial (config cg) = OffsetOldest then OffsetOldest else OffsetNewest) \<and>
          n' = n + 2 \<and> oc = Continue \<and> cg' = cg \<and>
          without_logs t =
            [ConsumePartition topic partn nextOffset,
             ConsumePartition topic partn
               (if Initial (config cg) = OffsetOldest then OffsetOldest else OffsetNewest)]"
    by (simp add: consumePartition_fallback [OF assms a refl] split: sum.splits)
next
  fix err
  assume a: "fst (consumePartition env 0 topic partn nextOffset cg) = Inl err"
  show "outcome_of (startPartitionConsumer env topic partn nextOffset cg) = Return"
    by (simp add: startPartitionConsumer_error [OF assms a])
  show "without_logs (trace_of (startPartitionConsumer env topic partn nextOffset cg)) =
          without_logs (trace_of (snd (snd (consumePartition env 0 topic partn nextOffset cg))))"
    by (simp add: startPartitionConsumer_error [OF assms a])
next
  fix err
  assume a: "fst (consumePartition env n topic partn nextOffset cg) = Inl err"
  show "partitionConsumerLoop env topic partn n nextOffset (ErrorsNil # evs) cg =
          prepend
            (Log ''%s/%d :: Consumer encountered an invalid state: re-establishing consumption of partition.'' #
               trace_of (snd (snd (consumePartition env n topic partn nextOffset cg))))
            (stopPartitionConsumer env topic partn nextOffset cg)"
    by (rule partitionConsumerLoop_reestablish_error [OF assms a])
  show "partitionConsumerLoop env topic partn n nextOffset (MessagesNil # evs) cg =
          prepend
            (Log ''%s/%d :: Consumer encountered an invalid state: re-establishing consumption of partition.'' #
               trace_of (snd (snd (consumePartition env n topic partn nextOffset cg))))
            (stopPartitionConsumer env topic partn nextOffset cg)"
    by (rule partitionConsumerLoop_reestablish_error [OF assms a])
qed

text \<open>
  C9. After a successful call of \<^verbatim>\<open>InitializePartition\<close> that returns \<open>v\<close>, the first
  request to the broker is at offset \<open>v\<close> when \<open>0 \<le> v\<close> and at \<^verbatim>\<open>Offsets.Initial\<close> only when
  \<open>v < 0\<close>; a return value of 0 opens the stream at offset 0.
\<close>

theorem initial_offset_selection:
  assumes "Logf_ok cg" and "offsetManager_InitializePartition env = Inr v"
  shows "\<exists>t. without_logs (trace_of (consumeClaimed env topic partn cg)) =
               InitializePartition topic partn #
               ConsumePartition topic partn (if 0 \<le> v then v else Initial (config cg)) # t"
proof -
  have first: "\<exists>t. without_logs (trace_of (startPartitionConsumer env topic partn off cg)) =
                 ConsumePartition topic partn off # t" for off
    using startPartitionConsumer_first [OF assms(1), of env topic partn off] by auto
  show ?thesis
  proof (cases "0 \<le> v")
    case True
    with assms first [of v] show ?thesis
      by (simp add: consumeClaimed_def andThen_Logf)
  next
    case False
    with assms first [of "Initial (config cg)"] show ?thesis
      by (cases "Initial (config cg) = OffsetOldest"; cases "Initial (config cg) = OffsetNewest")
         (simp_all add: consumeClaimed_def andThen_Logf)
  qed
qed

lemma Logf_ok_test_cg: "Logf_ok test_cg"
  by (simp add: Logf_ok_def test_cg_def)

theorem consumePartition_retry_witness:
  "Logf_ok test_cg \<and>
   consumer_ConsumePartition test_pc_env 0 ''t'' 0 100 = Inl ErrOffsetOutOfRange \<and>
   fst (consumePartition test_pc_env 0 ''t'' 0 100 test_cg) = Inr 1 \<and>
   without_logs (trace_of (snd (snd (consumePartition test_pc_env 0 ''t'' 0 100 test_cg)))) =
     [ConsumePartition ''t'' 0 100, ConsumePartition ''t'' 0 OffsetOldest] \<and>
   fst (consumePartition refusing_pc_env 0 ''t'' 0 100 test_cg) = Inl (External 1) \<and>
   outcome_of (startPartitionConsumer refusing_pc_env ''t'' 0 100 test_cg) = Return \<and>
   without_logs (trace_of (startPartitionConsumer refusing_pc_env ''t'' 0 100 test_cg)) =
     [ConsumePartition ''t'' 0 100]"
proof -
  have a: "consumer_ConsumePartition test_pc_env 0 ''t'' 0 100 = Inl ErrOffsetOutOfRange"
    by (simp add: test_pc_env_def)
  have i: "Initial (config test_cg) = OffsetOldest"
    by (simp add: test_cg_def test_config_def)
  have b: "consumer_ConsumePartition test_pc_env (0 + 1) ''t'' 0 OffsetOldest = Inr 1"
    by (simp add: test_pc_env_def OffsetOldest_def)
  have c: "consumer_ConsumePartition refusing_pc_env 0 ''t'' 0 100 \<noteq> Inl ErrOffsetOutOfRange"
    and c': "consumer_ConsumePartition refusing_pc_env 0 ''t'' 0 100 = Inl (External 1)"
    by (simp_all add: refusing_pc_env_def)
  note fallback = consumePartition_retry [OF Logf_ok_test_cg, where env = test_pc_env and n = 0
      and topic = "''t''" and partn = 0 and nextOffset = 100 and evs = "[]",
      THEN conjunct2, THEN conjunct1, rule_format, OF a]
  from fallback i b
  have 1: "fst (consumePartition test_pc_env 0 ''t'' 0 100 test_cg) = Inr 1 \<and>
        without_logs (trace_of (snd (snd (consumePartition test_pc_env 0 ''t'' 0 100 test_cg)))) =
          [ConsumePartition ''t'' 0 100, ConsumePartition ''t'' 0 OffsetOldest]"
    by (simp split: prod.splits)
  note direct = consumePartition_retry [OF Logf_ok_test_cg, where env = refusing_pc_env and n = 0
      and topic = "''t''" and partn = 0 and nextOffset = 100 and evs = "[]",
      THEN conjunct1, rule_format, OF c]
  from direct c'
  have 2: "fst (consumePartition refusing_pc_env 0 ''t'' 0 100 test_cg) = Inl (External 1) \<and>
        without_logs (trace_of (snd (snd (consumePartition refusing_pc_env 0 ''t'' 0 100 test_cg)))) =
          [ConsumePartition ''t'' 0 100]"
    by (simp split: prod.splits)
  note start = consumePartition_retry [OF Logf_ok_test_cg, where env = refusing_pc_env and n = 0
      and topic = "''t''" and partn = 0 and nextOffset = 100 and evs = "[]",
      THEN conjunct2, THEN conjunct2, THEN conjunct1, rule_format, OF 2 [THEN conjunct1]]
  from Logf_ok_test_cg a 1 2 start show ?thesis
    by simp
qed

theorem initial_offset_selection_witness:
  "Logf_ok test_cg \<and> offsetManager_InitializePartition test_pc_env = Inr 0 \<and>
   (\<exists>t. without_logs (trace_of (consumeClaimed test_pc_env ''Topic'' 0 test_cg)) =
          InitializePartition ''Topic'' 0 # ConsumePartition ''Topic'' 0 0 # t)"
proof -
  have i: "offsetManager_InitializePartition test_pc_env = Inr 0"
    by (simp add: test_pc_env_def)
  from initial_offset_selection [OF Logf_ok_test_cg i, of "''Topic''" 0] Logf_ok_test_cg i
  show ?thesis by simp
qed

subsection \<open>The claim phase\<close>

lemma send_errors_then_return:
  "andThen (send_errors a ce) (andThen (finish Return) g) cg =
     (if errors_closed cg then (Panic, cg, [])
      else if a then (Return, cg, [SendError ce])
      else (Blocked, cg, []))"
  by (simp add: andThen_def send_errors_def finish_def)

text \<open>One pass of the claim loop whose claim attempt fails.\<close>

lemma partitionClaimLoop_failed_attempt:
  assumes "tries < M" and "claim_events env (nat tries) = TimerFired (Some err)"
    and "instance_handle cg \<noteq> None" and "12 \<le> length (instanceID cg)"
  shows "partitionClaimLoop env topic partn M tries cg =
           (if tries + 1 < M then
              prepend
                ([TimeAfter1s, ClaimPartition topic partn] @
                 (if err = ErrPartitionClaimedByOther then []
                  else [Log ''%s/%d :: FAILED to claim partition on attempt %v of %v; retrying in 1 second. Error: %v'']))
                (partitionClaimLoop env topic partn M (tries + 1) cg)
            else
              prepend
                [TimeAfter1s, ClaimPartition topic partn,
                 Log ''%s/%d :: FAILED to claim the partition: %s'']
                (if errors_closed cg then (Panic, cg, [])
                 else if errors_accepts env
                 then (Return, cg, [SendError \<lparr>Topic = topic, Partition = partn, Err = err\<rparr>])
                 else (Blocked, cg, [])))"
proof -
  have ok: "Logf_ok cg"
    using assms(4) by (simp add: Logf_ok_def)
  obtain h where h: "instance_handle cg = Some h"
    using assms(3) by auto
  show ?thesis
    using assms(1,2) h
    by (subst partitionClaimLoop.simps)
       (simp add: Logf_run [OF ok] andThen_Logf [OF ok] send_errors_then_return)
qed

lemma partitionClaimLoop_done:
  "\<not> tries < M \<Longrightarrow> partitionClaimLoop env topic partn M tries cg = (Continue, cg, [])"
  by (subst partitionClaimLoop.simps) simp

lemma claim_attempts_simps [simp]:
  "claim_attempts [] = []"
  "claim_attempts (TimeAfter1s # t) = TimeAfter1s # claim_attempts t"
  "claim_attempts (ClaimPartition tp p # t) = ClaimPartition tp p # claim_attempts t"
  "claim_attempts (Log f # t) = claim_attempts t"
  "claim_attempts (SendError ce # t) = claim_attempts t"
  "claim_attempts (t @ t') = claim_attempts t @ claim_attempts t'"
  by (simp_all add: claim_attempts_def is_claim_attempt_def)

lemma claim_loop_all_fail:
  assumes "\<forall>n. \<exists>err. claim_events env n = TimerFired (Some err)"
    and "instance_handle cg \<noteq> None" and "12 \<le> length (instanceID cg)"
  shows "claim_attempts (trace_of (partitionClaimLoop env topic partn M tries cg)) =
           concat (replicate (nat (M - tries)) [TimeAfter1s, ClaimPartition topic partn])"
proof (induction "nat (M - tries)" arbitrary: tries)
  case 0
  then have "\<not> tries < M" by simp
  with 0 show ?case
    by (simp add: partitionClaimLoop_done)
next
  case (Suc k)
  then have lt: "tries < M" by simp
  obtain err where ev: "claim_events env (nat tries) = TimerFired (Some err)"
    using assms(1) by blast
  note step = partitionClaimLoop_failed_attempt [OF lt ev assms(2) assms(3), of topic partn]
  show ?case
  proof (cases "tries + 1 < M")
    case True
    from Suc(2) have k: "k = nat (M - (tries + 1))" by simp
    from Suc(2) have s: "nat (M - tries) = Suc (nat (M - (tries + 1)))" by simp
    from Suc(1) [OF k] True show ?thesis
      by (simp add: step s)
  next
    case False
    with lt have "nat (M - tries) = Suc 0" by simp
    with False show ?thesis
      by (simp add: step)
  qed
qed

lemma partitionClaimLoop_run:
  "\<exists>oc t. partitionClaimLoop env topic partn M tries cg = (oc, cg, t) \<and>
          (\<forall>e\<in>set t. claim_phase_effect e)"
proof (induction env topic partn M tries cg rule: partitionClaimLoop.induct)
  case (1 env topic partn M tries cg)
  show ?case
  proof (cases "tries < M")
    case False
    then show ?thesis
      by (simp add: partitionClaimLoop_done)
  next
    case lt: True
    show ?thesis
    proof (cases "claim_events env (nat tries)")
      case CtxDone
      with lt show ?thesis
        by (subst partitionClaimLoop.simps) simp
    next
      case (TimerFired r)
      show ?thesis
      proof (cases "instance_handle cg")
        case None
        with lt TimerFired show ?thesis
          by (subst partitionClaimLoop.simps) (simp add: claim_phase_effect_def)
      next
        case (Some h)
        show ?thesis
        proof (cases r)
          case None
          with lt TimerFired Some show ?thesis
            by (subst partitionClaimLoop.simps) (simp add: claim_phase_effect_def)
        next
          case err: (Some err)
          show ?thesis
          proof (cases "tries + 1 < M")
            case False
            with lt TimerFired Some err show ?thesis
              by (subst partitionClaimLoop.simps)
                 (simp add: claim_phase_effect_def andThen_def Logf_def send_errors_def)
          next
            case True
            show ?thesis
            proof (cases "err = ErrPartitionClaimedByOther \<or> 12 \<le> length (instanceID cg)")
              case False
              with lt TimerFired Some err True show ?thesis
                by (subst partitionClaimLoop.simps) (simp add: claim_phase_effect_def Logf_def)
            next
              case ok: True
              define t0 where
                "t0 = (if err = ErrPartitionClaimedByOther then []
                       else [Log ''%s/%d :: FAILED to claim partition on attempt %v of %v; retrying in 1 second. Error: %v''])"
              have t0:
                "(if err = ErrPartitionClaimedByOther then emit []
                  else Logf ''%s/%d :: FAILED to claim partition on attempt %v of %v; retrying in 1 second. Error: %v'') cg =
                 (Continue, cg, t0)"
                using ok Some by (cases "err = ErrPartitionClaimedByOther") (simp_all add: t0_def Logf_def)
              have c0: "\<forall>e\<in>set t0. claim_phase_effect e"
                by (simp add: t0_def claim_phase_effect_def)
              from "1.IH" [OF lt TimerFired _ err True t0 [symmetric] refl refl] Some
              obtain oc t where
                "partitionClaimLoop env topic partn M (tries + 1) cg = (oc, cg, t)"
                "\<forall>e\<in>set t. claim_phase_effect e"
                by auto
              with lt TimerFired Some err True t0 c0 show ?thesis
                by (subst partitionClaimLoop.simps) (auto simp: claim_phase_effect_def)
            qed
          qed
        qed
      qed
    qed
  qed
qed

lemma partitionConsumer_gives_up:
  assumes "partitionClaimLoop env topic partn (maxRetries cg) 0 cg = (Return, cg, t)"
  shows "partitionConsumer env topic partn cg = (Return, cg, t @ [WgDone])"
  using assms by (simp add: partitionConsumer_def with_defer_def andThen_def)

lemma claim_loop_all_fail_outcome:
  assumes "\<forall>n. \<exists>err. claim_events env n = TimerFired (Some err)"
    and "instance_handle cg \<noteq> None" and "12 \<le> length (instanceID cg)"
  shows "tries < M \<Longrightarrow>
         outcome_of (partitionClaimLoop env topic partn M tries cg) =
           (if errors_closed cg then Panic else if errors_accepts env then Return else Blocked)"
proof (induction "nat (M - tries)" arbitrary: tries)
  case 0
  then show ?case by simp
next
  case (Suc k)
  obtain err where ev: "claim_events env (nat tries) = TimerFired (Some err)"
    using assms(1) by blast
  note step = partitionClaimLoop_failed_attempt [OF Suc(3) ev assms(2) assms(3), of topic partn]
  show ?case
  proof (cases "tries + 1 < M")
    case True
    from Suc(2) have k: "k = nat (M - (tries + 1))" by simp
    from Suc(1) [OF k True] True show ?thesis
      by (simp add: step)
  next
    case False
    then show ?thesis
      by (simp add: step)
  qed
qed

lemma go_div_floor:
  assumes "0 \<le> a" and "0 < b"
  shows "go_div a b = \<lfloor>real_of_int a / real_of_int b\<rfloor>"
proof -
  from assms have "go_div a b = a div b"
    by (cases "a = 0") (simp_all add: go_div_def)
  then show ?thesis
    by (simp add: floor_divide_of_int_eq)
qed

text \<open>The budget is positive exactly for a timeout above minus two seconds.\<close>

lemma maxRetries_positive:
  "0 < maxRetries cg \<longleftrightarrow> - 2 * Second < ProcessingTimeout (config cg)"
proof (cases "0 \<le> ProcessingTimeout (config cg)")
  case True
  then have "0 \<le> ProcessingTimeout (config cg) div 1000000000"
    by simp
  with True show ?thesis
    by (cases "ProcessingTimeout (config cg) = 0")
       (simp_all add: maxRetries_def go_div_def Second_def)
next
  case False
  then have "go_div (ProcessingTimeout (config cg)) Second =
      - ((- ProcessingTimeout (config cg)) div 1000000000)"
    by (simp add: go_div_def Second_def)
  with False show ?thesis
    by (simp add: maxRetries_def Second_def) linarith
qed

text \<open>
  C2, as the code has it. For a processing timeout above minus two seconds (every
  timeout that is not negative is one), when no claim attempt succeeds and the
  generation is not cancelled, the claim loop makes exactly
  \<^verbatim>\<open>int(ProcessingTimeout/time.Second) + 2\<close> attempts, each right after a one-second
  wait, and then gives up: it does not go on to the code after the loop, and with the
  \<^verbatim>\<open>errors\<close> channel open and accepting the error the worker returns with no effect
  but the loop's and its \<^verbatim>\<open>wg.Done\<close>. The quotient is Go's truncating division: for a
  timeout that is not negative it is the floor of \<^verbatim>\<open>ProcessingTimeout\<close> over one
  second, not the ceiling.
\<close>

theorem claim_attempts_budget:
  assumes "\<forall>n. \<exists>err. claim_events env n = TimerFired (Some err)"
    and "instance_handle cg \<noteq> None" and "12 \<le> length (instanceID cg)"
    and "- 2 * Second < ProcessingTimeout (config cg)"
  shows "claim_attempts (trace_of (partitionClaimLoop env topic partn (maxRetries cg) 0 cg)) =
           concat (replicate (nat (maxRetries cg)) [TimeAfter1s, ClaimPartition topic partn]) \<and>
         0 < maxRetries cg \<and>
         maxRetries cg = go_div (ProcessingTimeout (config cg)) Second + 2 \<and>
         (0 \<le> ProcessingTimeout (config cg) \<longrightarrow>
            maxRetries cg =
              \<lfloor>real_of_int (ProcessingTimeout (config cg)) / real_of_int Second\<rfloor> + 2) \<and>
         outcome_of (partitionClaimLoop env topic partn (maxRetries cg) 0 cg) \<noteq> Continue \<and>
         (\<not> errors_closed cg \<and> errors_accepts env \<longrightarrow>
            partitionConsumer env topic partn cg =
              (Return, cg,
               trace_of (partitionClaimLoop env topic partn (maxRetries cg) 0 cg) @ [WgDone]))"
proof (intro conjI impI)
  show pos: "0 < maxRetries cg"
    using assms(4) by (simp add: maxRetries_positive)
  note oc = claim_loop_all_fail_outcome [OF assms(1,2,3) pos, of topic partn]
  show "claim_attempts (trace_of (partitionClaimLoop env topic partn (maxRetries cg) 0 cg)) =
          concat (replicate (nat (maxRetries cg)) [TimeAfter1s, ClaimPartition topic partn])"
    using claim_loop_all_fail [OF assms(1,2,3), of topic partn "maxRetries cg" 0] by simp
  show "maxRetries cg = go_div (ProcessingTimeout (config cg)) Second + 2"
    by (simp add: maxRetries_def)
  show "outcome_of (partitionClaimLoop env topic partn (maxRetries cg) 0 cg) \<noteq> Continue"
    by (simp add: oc)
  {
    assume "0 \<le> ProcessingTimeout (config cg)"
    then show "maxRetries cg =
        \<lfloor>real_of_int (ProcessingTimeout (config cg)) / real_of_int Second\<rfloor> + 2"
      by (simp add: maxRetries_def go_div_floor Second_def)
  }
  {
    assume "\<not> errors_closed cg \<and> errors_accepts env"
    with oc have r: "outcome_of (partitionClaimLoop env topic partn (maxRetries cg) 0 cg) = Return"
      by simp
    obtain oc' t where run:
      "partitionClaimLoop env topic partn (maxRetries cg) 0 cg = (oc', cg, t)"
      using partitionClaimLoop_run by blast
    with r have "oc' = Return" by simp
    with run partitionConsumer_gives_up [of env topic partn cg t]
    show "partitionConsumer env topic partn cg =
        (Return, cg, trace_of (partitionClaimLoop env topic partn (maxRetries cg) 0 cg) @ [WgDone])"
      by simp
  }
qed

lemma maxRetries_1500ms: "maxRetries cg_1500ms = 3"
  by (simp add: maxRetries_def cg_1500ms_def go_div_def Second_def)

theorem claim_attempts_budget_witness:
  "(\<forall>n. \<exists>err. claim_events contended_pc_env n = TimerFired (Some err)) \<and>
   instance_handle cg_1500ms \<noteq> None \<and> 12 \<le> length (instanceID cg_1500ms) \<and>
   - 2 * Second < ProcessingTimeout (config cg_1500ms) \<and>
   claim_attempts (trace_of (partitionClaimLoop contended_pc_env ''Topic'' 0 3 0 cg_1500ms)) =
     [TimeAfter1s, ClaimPartition ''Topic'' 0, TimeAfter1s, ClaimPartition ''Topic'' 0,
      TimeAfter1s, ClaimPartition ''Topic'' 0] \<and>
   maxRetries cg_1500ms = \<lfloor>real_of_int 1500000000 / real_of_int Second\<rfloor> + 2 \<and>
   outcome_of (partitionClaimLoop contended_pc_env ''Topic'' 0 3 0 cg_1500ms) \<noteq> Continue"
proof -
  have a: "\<forall>n. \<exists>err. claim_events contended_pc_env n = TimerFired (Some err)"
    by (simp add: contended_pc_env_def)
  have b: "instance_handle cg_1500ms \<noteq> None" and c: "12 \<le> length (instanceID cg_1500ms)"
    and d: "ProcessingTimeout (config cg_1500ms) = 1500000000"
    and p: "- 2 * Second < ProcessingTimeout (config cg_1500ms)"
    by (simp_all add: cg_1500ms_def test_cg_def Second_def)
  have e: "concat (replicate (nat 3) [TimeAfter1s, ClaimPartition ''Topic'' 0]) =
      [TimeAfter1s, ClaimPartition ''Topic'' 0, TimeAfter1s, ClaimPartition ''Topic'' 0,
       TimeAfter1s, ClaimPartition ''Topic'' 0]"
    by (simp add: eval_nat_numeral)
  from claim_attempts_budget [OF a b c p, of "''Topic''" 0] a b c d e p show ?thesis
    by (simp add: maxRetries_1500ms)
qed

lemma contended_claim_loop:
  "partitionClaimLoop contended_pc_env ''Topic'' 0 3 0 cg_1500ms =
     (Return, cg_1500ms,
      [TimeAfter1s, ClaimPartition ''Topic'' 0, TimeAfter1s, ClaimPartition ''Topic'' 0,
       TimeAfter1s, ClaimPartition ''Topic'' 0,
       Log ''%s/%d :: FAILED to claim the partition: %s'',
       SendError \<lparr>Topic = ''Topic'', Partition = 0, Err = ErrPartitionClaimedByOther\<rparr>])"
proof -
  have ev: "claim_events contended_pc_env n = TimerFired (Some ErrPartitionClaimedByOther)" for n
    by (simp add: contended_pc_env_def)
  have b: "instance_handle cg_1500ms \<noteq> None" and c: "12 \<le> length (instanceID cg_1500ms)"
    and d: "\<not> errors_closed cg_1500ms" and f: "errors_accepts contended_pc_env"
    by (simp_all add: cg_1500ms_def test_cg_def contended_pc_env_def test_pc_env_def)
  have 2: "partitionClaimLoop contended_pc_env ''Topic'' 0 3 2 cg_1500ms =
      (Return, cg_1500ms,
       [TimeAfter1s, ClaimPartition ''Topic'' 0,
        Log ''%s/%d :: FAILED to claim the partition: %s'',
        SendError \<lparr>Topic = ''Topic'', Partition = 0, Err = ErrPartitionClaimedByOther\<rparr>])"
    using partitionClaimLoop_failed_attempt [OF _ ev b c, of 2 3 "''Topic''" 0] d f by simp
  have 1: "partitionClaimLoop contended_pc_env ''Topic'' 0 3 1 cg_1500ms =
      prepend [TimeAfter1s, ClaimPartition ''Topic'' 0]
        (partitionClaimLoop contended_pc_env ''Topic'' 0 3 2 cg_1500ms)"
    using partitionClaimLoop_failed_attempt [OF _ ev b c, of 1 3 "''Topic''" 0] by simp
  have 0: "partitionClaimLoop contended_pc_env ''Topic'' 0 3 0 cg_1500ms =
      prepend [TimeAfter1s, ClaimPartition ''Topic'' 0]
        (partitionClaimLoop contended_pc_env ''Topic'' 0 3 1 cg_1500ms)"
    using partitionClaimLoop_failed_attempt [OF _ ev b c, of 0 3 "''Topic''" 0] by simp
  show ?thesis
    by (simp add: 0 1 2)
qed

theorem claim_attempts_ceiling_counterexample:
  "num_claims (trace_of (partitionConsumer contended_pc_env ''Topic'' 0 cg_1500ms)) = 3 \<and>
   nat (\<lceil>real_of_int (ProcessingTimeout (config cg_1500ms)) / real_of_int Second\<rceil> + 2) = 4"
proof -
  have "partitionClaimLoop contended_pc_env ''Topic'' 0 (maxRetries cg_1500ms) 0 cg_1500ms =
      (Return, cg_1500ms,
       [TimeAfter1s, ClaimPartition ''Topic'' 0, TimeAfter1s, ClaimPartition ''Topic'' 0,
        TimeAfter1s, ClaimPartition ''Topic'' 0,
        Log ''%s/%d :: FAILED to claim the partition: %s'',
        SendError \<lparr>Topic = ''Topic'', Partition = 0, Err = ErrPartitionClaimedByOther\<rparr>])"
    by (simp add: maxRetries_1500ms contended_claim_loop)
  from partitionConsumer_gives_up [OF this]
  have "num_claims (trace_of (partitionConsumer contended_pc_env ''Topic'' 0 cg_1500ms)) = 3"
    by (simp add: num_claims_def)
  moreover have "nat (\<lceil>real_of_int (ProcessingTimeout (config cg_1500ms)) / real_of_int Second\<rceil> + 2) = 4"
    by (simp add: cg_1500ms_def Second_def)
  ultimately show ?thesis by simp
qed

text \<open>
  C7. A failed claim attempt that is not the last one is followed by the next pass of
  the loop: with nothing in between when the error is the claimed-by-other one, and
  with one log line otherwise. When the last attempt fails, whatever the error, one
  \<^verbatim>\<open>ConsumerError\<close> with the topic, the partition id and that error is sent on
  \<^verbatim>\<open>errors\<close> (the channel being open and accepting the value) and the loop returns.
  When the claim loop returns, the partition consumer returns with no effect but the
  loop's and its \<^verbatim>\<open>wg.Done\<close>: no \<^verbatim>\<open>ReleasePartition\<close>, no request to the offset manager
  or the broker.
\<close>

theorem claim_phase_failures:
  assumes "tries < M" and "claim_events env (nat tries) = TimerFired (Some err)"
    and "instance_handle cg \<noteq> None" and "12 \<le> length (instanceID cg)"
  shows "(tries + 1 < M \<and> err = ErrPartitionClaimedByOther \<longrightarrow>
            partitionClaimLoop env topic partn M tries cg =
              prepend [TimeAfter1s, ClaimPartition topic partn]
                (partitionClaimLoop env topic partn M (tries + 1) cg)) \<and>
         (tries + 1 < M \<and> err \<noteq> ErrPartitionClaimedByOther \<longrightarrow>
            partitionClaimLoop env topic partn M tries cg =
              prepend
                [TimeAfter1s, ClaimPartition topic partn,
                 Log ''%s/%d :: FAILED to claim partition on attempt %v of %v; retrying in 1 second. Error: %v'']
                (partitionClaimLoop env topic partn M (tries + 1) cg)) \<and>
         (\<not> tries + 1 < M \<and> \<not> errors_closed cg \<and> errors_accepts env \<longrightarrow>
            partitionClaimLoop env topic partn M tries cg =
              (Return, cg,
               [TimeAfter1s, ClaimPartition topic partn,
                Log ''%s/%d :: FAILED to claim the partition: %s'',
                SendError \<lparr>Topic = topic, Partition = partn, Err = err\<rparr>])) \<and>
         (outcome_of (partitionClaimLoop env topic partn (maxRetries cg) 0 cg) = Return \<longrightarrow>
            partitionConsumer env topic partn cg =
              (Return, cg,
               trace_of (partitionClaimLoop env topic partn (maxRetries cg) 0 cg) @ [WgDone]) \<and>
            (\<forall>e\<in>set (trace_of (partitionClaimLoop env topic partn (maxRetries cg) 0 cg)).
               claim_phase_effect e))"
proof -
  note step = partitionClaimLoop_failed_attempt [OF assms, of topic partn]
  obtain oc t where run:
    "partitionClaimLoop env topic partn (maxRetries cg) 0 cg = (oc, cg, t)"
    "\<forall>e\<in>set t. claim_phase_effect e"
    using partitionClaimLoop_run by blast
  have "oc = Return \<longrightarrow> partitionConsumer env topic partn cg = (Return, cg, t @ [WgDone])"
    using partitionConsumer_gives_up run(1) by simp
  with run step show ?thesis
    by simp
qed

theorem claim_phase_failures_witness:
  "(2::int) < 3 \<and> claim_events contended_pc_env (nat 2) = TimerFired (Some ErrPartitionClaimedByOther) \<and>
   instance_handle cg_1500ms \<noteq> None \<and> 12 \<le> length (instanceID cg_1500ms) \<and>
   partitionClaimLoop contended_pc_env ''Topic'' 0 3 2 cg_1500ms =
     (Return, cg_1500ms,
      [TimeAfter1s, ClaimPartition ''Topic'' 0,
       Log ''%s/%d :: FAILED to claim the partition: %s'',
       SendError \<lparr>Topic = ''Topic'', Partition = 0, Err = ErrPartitionClaimedByOther\<rparr>]) \<and>
   partitionConsumer contended_pc_env ''Topic'' 0 cg_1500ms =
     (Return, cg_1500ms,
      [TimeAfter1s, ClaimPartition ''Topic'' 0, TimeAfter1s, ClaimPartition ''Topic'' 0,
       TimeAfter1s, ClaimPartition ''Topic'' 0,
       Log ''%s/%d :: FAILED to claim the partition: %s'',
       SendError \<lparr>Topic = ''Topic'', Partition = 0, Err = ErrPartitionClaimedByOther\<rparr>,
       WgDone])"
proof -
  have ev: "claim_events contended_pc_env (nat 2) = TimerFired (Some ErrPartitionClaimedByOther)"
    by (simp add: contended_pc_env_def)
  have b: "instance_handle cg_1500ms \<noteq> None" and c: "12 \<le> length (instanceID cg_1500ms)"
    and d: "\<not> errors_closed cg_1500ms" and f: "errors_accepts contended_pc_env"
    by (simp_all add: cg_1500ms_def test_cg_def contended_pc_env_def test_pc_env_def)
  have lt: "(2::int) < 3" by simp
  from claim_phase_failures [OF lt ev b c, of "''Topic''" 0] lt ev b c d f show ?thesis
    by (simp add: maxRetries_1500ms contended_claim_loop)
qed

subsection \<open>What the workers do\<close>

lemma plain_run_run [simp]:
  "plain_run cg (oc, cg', t) \<longleftrightarrow> cg' = cg \<and> list_all plain t"
  by (simp add: plain_run_def)

lemma plain_run_prepend [simp]:
  "plain_run cg (prepend t r) \<longleftrightarrow>
     list_all plain t \<and> plain_run cg r"
  by (cases r) auto

lemma plain_run_Logf [simp]: "plain_run cg (Logf f cg)"
  by (simp add: Logf_def)

lemma plain_run_send_errors [simp]: "plain_run cg (send_errors a ce cg)"
  by (simp add: send_errors_def)

lemma plain_run_instance_call [simp]:
  "plain e \<Longrightarrow> plain_run cg (instance_call e cg)"
  by (simp add: instance_call_def)

lemma plain_run_andThen:
  "plain_run cg (f cg) \<Longrightarrow> plain_run cg (g cg) \<Longrightarrow> plain_run cg (andThen f g cg)"
  by (cases "f cg" rule: prod_cases3; cases "g cg" rule: prod_cases3)
     (auto simp: andThen_def split: outcome.splits)

lemma plain_run_steps:
  "(\<And>s. s \<in> set ss \<Longrightarrow> plain_run cg (s cg)) \<Longrightarrow> plain_run cg (steps ss cg)"
  by (induction ss) (simp_all add: plain_run_andThen)

lemma plain_run_with_defer:
  "plain_run cg (d cg) \<Longrightarrow> plain_run cg (body cg) \<Longrightarrow>
   plain_run cg (with_defer d body cg)"
  by (cases "body cg" rule: prod_cases3; cases "d cg" rule: prod_cases3)
     (auto simp: with_defer_def split: outcome.splits)

lemma plain_run_consumePartition:
  "plain_run cg (snd (snd (consumePartition env n topic partn nextOffset cg)))"
  unfolding consumePartition_def Let_def
  by (auto intro!: plain_run_andThen plain_run_steps split: sum.splits)

lemma plain_run_stopPartitionConsumer:
  "plain_run cg (stopPartitionConsumer env topic partn lastOffset cg)"
  unfolding stopPartitionConsumer_def
  by (auto intro!: plain_run_andThen plain_run_steps split: option.splits)

lemma plain_run_reestablish:
  "plain_run cg (snd (snd (reestablish env n topic partn lastOffset cg)))"
proof (cases "Logf ''%s/%d :: Consumer encountered an invalid state: re-establishing consumption of partition.'' cg" rule: prod_cases3)
  case (fields oc0 cg0 t0)
  have l: "plain_run cg (oc0, cg0, t0)"
    using plain_run_Logf [of cg] fields by metis
  then have cg0: "cg0 = cg" by simp
  show ?thesis
  proof (cases "oc0 = Continue")
    case True
    obtain r1 n1 run1 where c: "consumePartition env n topic partn lastOffset cg = (r1, n1, run1)"
      by (metis prod_cases3)
    with plain_run_consumePartition [of cg env n topic partn lastOffset]
    have "plain_run cg run1" by simp
    with fields True c cg0 l show ?thesis
      by (simp add: reestablish_def)
  next
    case False
    with fields l show ?thesis
      by (cases oc0) (simp_all add: reestablish_def)
  qed
qed

lemma plain_run_partitionConsumerLoop:
  "plain_run cg (partitionConsumerLoop env topic partn n lastOffset evs cg)"
proof (induction evs arbitrary: n lastOffset)
  case Nil
  then show ?case by simp
next
  case (Cons ev evs)
  note stop = plain_run_stopPartitionConsumer [of cg env topic partn lastOffset]
  obtain r n' oc cg' t where re:
    "reestablish env n topic partn lastOffset cg = (r, n', oc, cg', t)"
    by (metis prod_cases5)
  with plain_run_reestablish [of cg env n topic partn lastOffset]
  have rc: "cg' = cg" "list_all plain t"
    by simp_all
  show ?case
  proof (cases ev)
    case CtxDoneEv
    then show ?thesis by (simp add: stop)
  next
    case ErrorsNil
    with re rc stop Cons.IH [of n' lastOffset] show ?thesis
      by (cases r; cases oc) simp_all
  next
    case (ErrorsEv err sel)
    with stop Cons.IH [of n lastOffset] show ?thesis
      by (cases "select_send_or_Done sel") simp_all
  next
    case MessagesNil
    with re rc stop Cons.IH [of n' lastOffset] show ?thesis
      by (cases r; cases oc) simp_all
  next
    case (MessagesEv message sel)
    with stop Cons.IH [of n "Offset message"] show ?thesis
      by (cases "select_send_or_Done sel") simp_all
  qed
qed

lemma plain_run_startPartitionConsumer:
  "plain_run cg (startPartitionConsumer env topic partn nextOffset cg)"
proof -
  obtain r n' oc cg' t where c:
    "consumePartition env 0 topic partn nextOffset cg = (r, n', oc, cg', t)"
    by (metis prod_cases5)
  with plain_run_consumePartition [of cg env 0 topic partn nextOffset]
  have rc: "cg' = cg" "list_all plain t"
    by simp_all
  have loop: "plain_run cg
      (with_defer (emit [PartitionConsumerClose h])
        (partitionConsumerLoop env topic partn n' (- 1) (loop_events env)) cg)" for h
    by (rule plain_run_with_defer) (simp_all add: plain_run_partitionConsumerLoop)
  have fail: "plain_run cg
      (steps [Logf ''%s/%d :: FAILED to start partition consumer: %s'', finish Return] cg)"
    by (rule plain_run_steps) auto
  from c rc loop fail show ?thesis
    by (cases r; cases oc) (simp_all add: startPartitionConsumer_def)
qed

lemma plain_run_consumeClaimed:
  "plain_run cg (consumeClaimed env topic partn cg)"
  unfolding consumeClaimed_def
  by (auto intro!: plain_run_andThen plain_run_steps simp: plain_run_startPartitionConsumer
      split: sum.splits)

lemma plain_run_release_deferred:
  "plain_run cg (release_deferred env topic partn cg)"
  unfolding release_deferred_def
  by (auto intro!: plain_run_andThen plain_run_steps split: option.splits)

lemma claim_phase_effect_plain: "claim_phase_effect e \<Longrightarrow> plain e"
  by (cases e) (simp_all add: claim_phase_effect_def)

lemma plain_run_partitionClaimLoop:
  "plain_run cg (partitionClaimLoop env topic partn M tries cg)"
proof -
  obtain oc t where run: "partitionClaimLoop env topic partn M tries cg = (oc, cg, t)"
    "\<forall>e\<in>set t. claim_phase_effect e"
    using partitionClaimLoop_run by blast
  then show ?thesis
    by (auto simp: list_all_iff claim_phase_effect_plain)
qed

lemma plain_run_claimed:
  "plain_run cg
     (andThen (partitionClaimLoop env topic partn M 0)
        (with_defer (release_deferred env topic partn) (consumeClaimed env topic partn)) cg)"
  by (intro plain_run_with_defer plain_run_andThen plain_run_partitionClaimLoop
      plain_run_release_deferred plain_run_consumeClaimed)

lemma worker_todo_plain: "list_all plain t \<Longrightarrow> worker_todo pending (t @ t') = worker_todo pending t'"
  by (induction t) simp_all

lemma worker_todo_plain_only: "list_all plain t \<Longrightarrow> worker_todo pending t"
  using worker_todo_plain [of t pending "[]"] by simp

lemma worker_todo_partitionConsumer:
  "worker_todo False (trace_of (partitionConsumer env topic partn cg))"
proof -
  obtain oc cg' t where body:
    "andThen (partitionClaimLoop env topic partn (maxRetries cg) 0)
       (with_defer (release_deferred env topic partn) (consumeClaimed env topic partn)) cg =
     (oc, cg', t)"
    by (metis prod_cases3)
  with plain_run_claimed [of cg env topic partn "maxRetries cg"]
  have t: "list_all plain t" by simp
  from body t show ?thesis
    by (cases oc)
       (simp_all add: partitionConsumer_def with_defer_def worker_todo_plain worker_todo_plain_only)
qed

lemma andThen_emit_Nil_ext: "andThen f (emit []) = f"
  by (rule ext) simp

lemma joining_run_run [simp]:
  "joining_run cg (oc, cg', t) \<longleftrightarrow>
     cg' = cg \<and> worker_todo False (t @ (if oc = Blocked \<or> oc = Waiting then [] else [WgDone]))"
  by (simp add: joining_run_def)

lemma plain_run_joining: "plain_run cg r \<Longrightarrow> joining_run cg r"
  by (cases r) (simp add: worker_todo_plain)

lemma joining_run_prepend [simp]:
  "list_all plain t \<Longrightarrow> joining_run cg (prepend t r) \<longleftrightarrow> joining_run cg r"
  by (cases r) (simp add: worker_todo_plain)

lemma joining_run_andThen:
  "plain_run cg (f cg) \<Longrightarrow> joining_run cg (g cg) \<Longrightarrow> joining_run cg (andThen f g cg)"
  by (cases "f cg" rule: prod_cases3; cases "g cg" rule: prod_cases3)
     (auto simp: andThen_def worker_todo_plain worker_todo_plain_only split: outcome.splits)

lemma worker_todo_spawns:
  "worker_todo pending (map (\<lambda>pid. Go_partitionConsumer topic (f pid)) xs @ LocalWgWait # rest) =
     worker_todo False rest"
  "worker_todo pending (map (\<lambda>pid. Go_partitionConsumer topic (f pid)) xs)"
  by (induction xs arbitrary: pending) simp_all

lemma joining_run_consumeAssigned:
  "joining_run cg (consumeAssigned env topic pls cg)"
  by (simp add: consumeAssigned_def Let_def andThen_def Logf_def local_wg_Wait_def
      worker_todo_spawns)

lemma plain_RetrievePartitionLeaders:
  "list_all plain (snd (RetrievePartitionLeaders L ps))"
  by (induction ps) (auto split: sum.splits prod.splits)

lemma joining_run_topicConsumer_body:
  "joining_run cg
     (steps
        [Logf ''%s :: Started topic consumer'',
         emit [TopicPartitions topic],
         (case kazoo_TopicPartitions env of
            Inl err \<Rightarrow>
              steps
                [Logf ''%s :: FAILED to get list of partitions: %s'',
                 send_errors (tc_errors_accepts env)
                   \<lparr>Topic = topic, Partition = - 1, Err = err\<rparr>,
                 emit [Cancel],
                 finish Return]
          | Inr partitions \<Rightarrow>
              (case RetrievePartitionLeaders (partition_Leader env) partitions of
                 (Inl err, t) \<Rightarrow>
                   steps
                     [emit t,
                      Logf ''%s :: FAILED to get leaders of partitions: %s'',
                      send_errors (tc_errors_accepts env)
                        \<lparr>Topic = topic, Partition = - 1, Err = err\<rparr>,
                      emit [Cancel],
                      finish Return]
               | (Inr topicPartitionLeaders, t) \<Rightarrow>
                   steps [emit t, consumeAssigned env topic topicPartitionLeaders]))] cg)"
proof -
  have fail: "joining_run cg
      (steps [emit t, Logf f,
              send_errors (tc_errors_accepts env) ce, emit [Cancel], finish Return] cg)"
    if "list_all plain t" for t f ce
    using that by (intro plain_run_joining plain_run_steps) auto
  have rest: "joining_run cg
      ((case kazoo_TopicPartitions env of
          Inl err \<Rightarrow>
            steps
              [Logf ''%s :: FAILED to get list of partitions: %s'',
               send_errors (tc_errors_accepts env)
                 \<lparr>Topic = topic, Partition = - 1, Err = err\<rparr>,
               emit [Cancel],
               finish Return]
        | Inr partitions \<Rightarrow>
            (case RetrievePartitionLeaders (partition_Leader env) partitions of
               (Inl err, t) \<Rightarrow>
                 steps
                   [emit t,
                    Logf ''%s :: FAILED to get leaders of partitions: %s'',
                    send_errors (tc_errors_accepts env)
                      \<lparr>Topic = topic, Partition = - 1, Err = err\<rparr>,
                    emit [Cancel],
                    finish Return]
             | (Inr topicPartitionLeaders, t) \<Rightarrow>
                 steps [emit t, consumeAssigned env topic topicPartitionLeaders])) cg)"
  proof (cases "kazoo_TopicPartitions env")
    case (Inl err)
    then show ?thesis
      by (auto intro!: plain_run_joining plain_run_andThen plain_run_steps)
  next
    case (Inr partitions)
    obtain r t where l: "RetrievePartitionLeaders (partition_Leader env) partitions = (r, t)"
      by (metis prod.collapse)
    with plain_RetrievePartitionLeaders [of "partition_Leader env" partitions]
    have t: "list_all plain t" by simp
    show ?thesis
    proof (cases r)
      case (Inl err)
      with Inr l fail [OF t] show ?thesis by simp
    next
      case pls: (Inr pls)
      have "joining_run cg (steps [emit t, consumeAssigned env topic pls] cg)"
        using t by (simp add: joining_run_consumeAssigned)
      with Inr l pls show ?thesis by simp
    qed
  qed
  have "joining_run cg
      (andThen (Logf ''%s :: Started topic consumer'')
         (andThen (emit [TopicPartitions topic])
            (case kazoo_TopicPartitions env of
               Inl err \<Rightarrow>
                 steps
                   [Logf ''%s :: FAILED to get list of partitions: %s'',
                    send_errors (tc_errors_accepts env)
                      \<lparr>Topic = topic, Partition = - 1, Err = err\<rparr>,
                    emit [Cancel],
                    finish Return]
             | Inr partitions \<Rightarrow>
                 (case RetrievePartitionLeaders (partition_Leader env) partitions of
                    (Inl err, t) \<Rightarrow>
                      steps
                        [emit t,
                         Logf ''%s :: FAILED to get leaders of partitions: %s'',
                         send_errors (tc_errors_accepts env)
                           \<lparr>Topic = topic, Partition = - 1, Err = err\<rparr>,
                         emit [Cancel],
                         finish Return]
                  | (Inr topicPartitionLeaders, t) \<Rightarrow>
                      steps [emit t, consumeAssigned env topic topicPartitionLeaders]))) cg)"
    using rest by (intro joining_run_andThen plain_run_Logf) simp
  then show ?thesis
    by (simp add: andThen_emit_Nil_ext)
qed

lemma worker_todo_topicConsumer:
  "worker_todo False (trace_of (topicConsumer env topic cg))"
proof (cases "ctx_Done_at_entry env")
  case True
  then show ?thesis
    by (simp add: topicConsumer_def with_defer_def)
next
  case False
  from joining_run_topicConsumer_body [of cg topic env] False show ?thesis
    unfolding topicConsumer_def with_defer_def
    by (auto simp: joining_run_def outcome_of_def trace_of_def split: prod.splits outcome.splits)
qed


subsection \<open>Close\<close>

lemma Close_returns:
  assumes "running cg" and "wg_Wait_returns env"
  shows "case Close env cg of (r, cg', t) \<Rightarrow>
           r = Returns (consumer_Close env) \<and>
           without_logs t = shutdown_sequence \<and>
           cg' = cg\<lparr>instance_handle := None, singleShutdown := True, stopper_closed := True,
                   messages_closed := True, errors_closed := True\<rparr>"
  using assms
  by (cases "offsetManager_Close env"; cases "instance_Deregister env"; cases "consumer_Close env")
     (auto simp: running_def Close_def shutdown_def step_defs without_logs_def shutdown_sequence_def)

lemma Close_waits:
  assumes "running cg" and "\<not> wg_Wait_returns env"
  shows "Close env cg = (Blocks, cg\<lparr>stopper_closed := True\<rparr>, [MuLock, CloseStopper, MuUnlock])"
  using assms
  by (auto simp: running_def Close_def shutdown_def step_defs)

subsection \<open>Close among the other goroutines\<close>

lemma filter_length_update:
  assumes "i < length xs"
  shows "length (filter P (xs[i := y])) + (if P (xs ! i) then 1 else 0) =
         length (filter P xs) + (if P y then 1 else 0)"
proof -
  have "xs = take i xs @ xs ! i # drop (Suc i) xs"
    using assms by (simp add: id_take_nth_drop)
  moreover have "xs[i := y] = take i xs @ y # drop (Suc i) xs"
    using assms by (simp add: upd_conv_take_nth_drop)
  ultimately have "filter P xs = filter P (take i xs) @ filter P (xs ! i # drop (Suc i) xs)"
    and "filter P (xs[i := y]) = filter P (take i xs) @ filter P (y # drop (Suc i) xs)"
    by (metis filter_append)+
  then show ?thesis by simp
qed

lemma filter_length_update_same:
  "i < length xs \<Longrightarrow> P y = P (xs ! i) \<Longrightarrow> length (filter P (xs[i := y])) = length (filter P xs)"
  using filter_length_update [of i xs P y] by (simp split: if_splits)

lemma filter_length_update_less:
  "i < length xs \<Longrightarrow> P (xs ! i) \<Longrightarrow> \<not> P y \<Longrightarrow>
   length (filter P (xs[i := y])) = length (filter P xs) - 1 \<and> 0 < length (filter P xs)"
  using filter_length_update [of i xs P y] by (cases "filter P xs") auto

lemma list_all_update: "list_all Q xs \<Longrightarrow> Q y \<Longrightarrow> list_all Q (xs[i := y])"
  by (auto simp: list_all_iff dest: set_update_subset_insert [THEN subsetD])

lemma filter_length_pos: "i < length xs \<Longrightarrow> P (xs ! i) \<Longrightarrow> 0 < length (filter P xs)"
  by (metis filter_empty_conv length_greater_0_conv nth_mem)

lemma filter_length_zero: "length (filter P xs) = 0 \<Longrightarrow> x \<in> set xs \<Longrightarrow> \<not> P x"
  by (metis filter_empty_conv length_0_conv)

subsection \<open>What is left of a worker's run\<close>

lemma worker_todo_weaken: "worker_todo True t \<Longrightarrow> worker_todo pending t"
  by (induction t arbitrary: pending) (auto split: effect.splits if_splits)

lemma worker_todo_cases:
  assumes "worker_todo pending (e # rest)"
  obtains "plain e" "worker_todo pending rest"
    | topic partn where "e = Go_partitionConsumer topic partn" "worker_todo True rest"
    | "e = LocalWgWait" "worker_todo False rest"
    | "e = WgDone" "\<not> pending" "rest = []"
  using assms by (cases e) simp_all

lemma channel_effect_plain:
  "plain e \<Longrightarrow> \<not> messages_ch s \<Longrightarrow> \<not> errors_ch s \<Longrightarrow> channel_effect e s = s"
  by (cases e) (simp_all add: channel_effect_def)

lemma channel_effect_spawn [simp]:
  "channel_effect (Go_partitionConsumer topic partn) s = s"
  "channel_effect LocalWgWait s = s"
  by (simp_all add: channel_effect_def)

subsection \<open>The moves keep the state well-formed\<close>

lemma new_tworker_ok:
  "tworker_ok \<lparr>t_todo = trace_of (topicConsumer env topic cg), t_done = False, t_wg = 0, t_parts = []\<rparr>"
  by (simp add: tworker_ok_def worker_todo_topicConsumer)

lemma new_pworker_ok:
  "pworker_ok \<lparr>p_todo = trace_of (partitionConsumer env topic partn cg), p_done = False\<rparr>"
  by (simp add: pworker_ok_def worker_todo_partitionConsumer)

lemma topicListConsumer_preserves:
  assumes "system_ok k s" and "topicListConsumer m s = Some s'"
  shows "system_ok k s'"
proof (cases m)
  case Lock
  with assms(2) have "loop_pc s = BeforeLock" "mu s = None"
    and s': "s' = s\<lparr>mu := Some TheLoop, loop_pc := HoldsLock\<rparr>"
    by (auto simp: topicListConsumer_def split: if_splits)
  with assms(1) show ?thesis
    unfolding s' by (auto simp: system_ok_def)
next
  case CheckStopper
  with assms(2) have pc: "loop_pc s = HoldsLock"
    and s': "s' = (if stopper_ch s then s\<lparr>mu := None, loop_pc := Gone\<rparr>
                   else s\<lparr>loop_pc := Watching\<rparr>)"
    by (auto simp: topicListConsumer_def split: if_splits)
  with assms(1) show ?thesis
    unfolding s' by (auto simp: system_ok_def)
next
  case (WatchInstances r)
  with assms(2) have pc: "loop_pc s = Watching"
    and s': "s' = (case r of Inl err \<Rightarrow> s\<lparr>mu := None, loop_pc := Gone\<rparr>
                   | Inr instances \<Rightarrow> s\<lparr>loop_pc := Spawning (sys_topics s)\<rparr>)"
    by (auto simp: topicListConsumer_def split: if_splits)
  with assms(1) show ?thesis
    unfolding s' by (cases r) (auto simp: system_ok_def)
next
  case (StartTopicConsumer env cg)
  with assms(2) obtain topic topics where pc: "loop_pc s = Spawning (topic # topics)"
    and s': "s' = s\<lparr>cg_wg := cg_wg s + 1,
                     topic_workers := topic_workers s @
                       [\<lparr>t_todo = trace_of (topicConsumer env topic cg), t_done = False,
                         t_wg = 0, t_parts = []\<rparr>],
                     loop_pc := Spawning topics\<rparr>"
    by (auto simp: topicListConsumer_def split: loop_at.splits list.splits)
  from assms(1) pc have "\<not> stopper_ch s"
    by (auto simp: system_ok_def)
  with assms(1) have "\<not> 2 \<le> k"
    by (auto simp: system_ok_def)
  with assms(1) pc show ?thesis
    unfolding s' by (auto simp: system_ok_def new_tworker_ok)
next
  case Unlock
  with assms(2) have pc: "loop_pc s = Spawning []"
    and s': "s' = s\<lparr>mu := None, loop_pc := InSelect\<rparr>"
    by (auto simp: topicListConsumer_def split: if_splits)
  with assms(1) show ?thesis
    unfolding s' by (auto simp: system_ok_def)
next
  case SelectCtxDone
  with assms(2) have pc: "loop_pc s = InSelect"
    and s': "s' = s\<lparr>loop_pc := Joining\<rparr>"
    by (auto simp: topicListConsumer_def split: if_splits)
  with assms(1) show ?thesis
    unfolding s' by (auto simp: system_ok_def)
next
  case SelectStopper
  with assms(2) have pc: "loop_pc s = InSelect"
    and s': "s' = s\<lparr>loop_pc := Gone\<rparr>"
    by (auto simp: topicListConsumer_def split: if_splits)
  with assms(1) show ?thesis
    unfolding s' by (auto simp: system_ok_def)
next
  case SelectConsumerChanges
  with assms(2) have pc: "loop_pc s = InSelect"
    and s': "s' = s\<lparr>loop_pc := Joining\<rparr>"
    by (auto simp: topicListConsumer_def split: if_splits)
  with assms(1) show ?thesis
    unfolding s' by (auto simp: system_ok_def)
next
  case WgWaitReturns
  with assms(2) have pc: "loop_pc s = Joining"
    and s': "s' = s\<lparr>loop_pc := BeforeLock\<rparr>"
    by (auto simp: topicListConsumer_def split: if_splits)
  with assms(1) show ?thesis
    unfolding s' by (auto simp: system_ok_def)
next
  case CloseStep
  with assms show ?thesis
    by (simp add: topicListConsumer_def)
next
  case (TopicStep i env cg)
  with assms show ?thesis
    by (simp add: topicListConsumer_def)
next
  case (PartitionStep i j)
  with assms show ?thesis
    by (simp add: topicListConsumer_def)
qed

lemma shutdown_sequence_drop:
  "drop 0 shutdown_sequence = MuLock # drop 1 shutdown_sequence"
  "drop 1 shutdown_sequence = CloseStopper # drop 2 shutdown_sequence"
  "drop 2 shutdown_sequence = MuUnlock # drop 3 shutdown_sequence"
  "drop 3 shutdown_sequence = WgWait # drop 4 shutdown_sequence"
  "drop 4 shutdown_sequence = OffsetManagerClose # drop 5 shutdown_sequence"
  "drop 5 shutdown_sequence = Deregister # drop 6 shutdown_sequence"
  "drop 6 shutdown_sequence = ConsumerClose # drop 7 shutdown_sequence"
  "drop 7 shutdown_sequence = CloseMessages # drop 8 shutdown_sequence"
  "drop 8 shutdown_sequence = CloseErrors # drop 9 shutdown_sequence"
  "drop 9 shutdown_sequence = SetInstanceNil # drop 10 shutdown_sequence"
  "drop 10 shutdown_sequence = KazooClose # drop 11 shutdown_sequence"
  "drop 11 shutdown_sequence = []"
  by (simp_all add: shutdown_sequence_def)

lemma without_logs_Cons:
  "without_logs (e # t) = (if is_Log e then without_logs t else e # without_logs t)"
  by (simp add: without_logs_def)

lemma close_step_preserves:
  assumes "system_ok k s" and "close_step s = Some s'"
  shows "system_ok k s' \<or> system_ok (Suc k) s'"
proof -
  from assms(2) obtain e rest where todo: "close_todo s = e # rest"
    by (cases "close_todo s") (simp_all add: close_step_def)
  show ?thesis
  proof (cases "is_Log e")
    case True
    then obtain f where e: "e = Log f" by (cases e) simp_all
    with assms(2) todo have s': "s' = s\<lparr>close_todo := rest\<rparr>"
      by (simp add: close_step_def channel_effect_def)
    from assms(1) todo e have "system_ok k s'"
      unfolding s' by (auto simp: system_ok_def shutdown_sequence_def)
    then show ?thesis ..
  next
    case False
    from assms(1) have k: "k \<le> 11"
      and seq: "without_logs (close_todo s) = drop k shutdown_sequence"
      by (simp_all add: system_ok_def)
    from seq todo False have next_effect: "e # without_logs rest = drop k shutdown_sequence"
      by (simp add: without_logs_Cons)
    from k have "k = 0 \<or> k = 1 \<or> k = 2 \<or> k = 3 \<or> k = 4 \<or> k = 5 \<or> k = 6 \<or>
      k = 7 \<or> k = 8 \<or> k = 9 \<or> k = 10 \<or> k = 11"
      by arith
    then consider "k = 0" | "k = 1" | "k = 2" | "k = 3" | "k = 4" | "k = 5" | "k = 6"
      | "k = 7" | "k = 8" | "k = 9" | "k = 10" | "k = 11"
      by blast
    then have "system_ok (Suc k) s'"
    proof cases
      case 1
      with next_effect have e: "e = MuLock" and r: "without_logs rest = drop 1 shutdown_sequence"
        by (simp_all add: shutdown_sequence_def)
      from assms(2) todo e have g: "mu s = None"
        and s': "s' = s\<lparr>mu := Some TheCloser, close_todo := rest\<rparr>"
        by (auto simp: close_step_def split: if_splits)
      from assms(1) 1 r g show ?thesis
        unfolding s' by (auto simp: system_ok_def shutdown_sequence_def)
    next
      case 2
      with next_effect have e: "e = CloseStopper" and r: "without_logs rest = drop 2 shutdown_sequence"
        by (simp_all add: shutdown_sequence_def)
      from assms(1) 2 have "\<not> stopper_ch s"
        by (auto simp: system_ok_def)
      with assms(2) todo e have s': "s' = s\<lparr>stopper_ch := True, close_todo := rest\<rparr>"
        by (simp add: close_step_def channel_effect_def)
      from assms(1) 2 r show ?thesis
        unfolding s' by (cases "loop_pc s") (auto simp: system_ok_def shutdown_sequence_def)
    next
      case 3
      with next_effect have e: "e = MuUnlock" and r: "without_logs rest = drop 3 shutdown_sequence"
        by (simp_all add: shutdown_sequence_def)
      from assms(2) todo e have s': "s' = s\<lparr>mu := None, close_todo := rest\<rparr>"
        by (simp add: close_step_def)
      from assms(1) 3 r show ?thesis
        unfolding s' by (cases "loop_pc s") (auto simp: system_ok_def shutdown_sequence_def)
    next
      case 4
      with next_effect have e: "e = WgWait" and r: "without_logs rest = drop 4 shutdown_sequence"
        by (simp_all add: shutdown_sequence_def)
      from assms(2) todo e have g: "cg_wg s = 0" and s': "s' = s\<lparr>close_todo := rest\<rparr>"
        by (auto simp: close_step_def split: if_splits)
      from assms(1) 4 r g show ?thesis
        unfolding s' by (auto simp: system_ok_def shutdown_sequence_def)
    next
      case 5
      with next_effect have e: "e = OffsetManagerClose" and r: "without_logs rest = drop 5 shutdown_sequence"
        by (simp_all add: shutdown_sequence_def)
      from assms(2) todo e have s': "s' = s\<lparr>close_todo := rest\<rparr>"
        by (simp add: close_step_def channel_effect_def)
      from assms(1) 5 r show ?thesis
        unfolding s' by (auto simp: system_ok_def shutdown_sequence_def)
    next
      case 6
      with next_effect have e: "e = Deregister" and r: "without_logs rest = drop 6 shutdown_sequence"
        by (simp_all add: shutdown_sequence_def)
      from assms(2) todo e have s': "s' = s\<lparr>close_todo := rest\<rparr>"
        by (simp add: close_step_def channel_effect_def)
      from assms(1) 6 r show ?thesis
        unfolding s' by (auto simp: system_ok_def shutdown_sequence_def)
    next
      case 7
      with next_effect have e: "e = ConsumerClose" and r: "without_logs rest = drop 7 shutdown_sequence"
        by (simp_all add: shutdown_sequence_def)
      from assms(2) todo e have s': "s' = s\<lparr>close_todo := rest\<rparr>"
        by (simp add: close_step_def channel_effect_def)
      from assms(1) 7 r show ?thesis
        unfolding s' by (auto simp: system_ok_def shutdown_sequence_def)
    next
      case 8
      with next_effect have e: "e = CloseMessages" and r: "without_logs rest = drop 8 shutdown_sequence"
        by (simp_all add: shutdown_sequence_def)
      from assms(1) 8 have "\<not> messages_ch s"
        by (auto simp: system_ok_def)
      with assms(2) todo e have s': "s' = s\<lparr>messages_ch := True, close_todo := rest\<rparr>"
        by (simp add: close_step_def channel_effect_def)
      from assms(1) 8 r show ?thesis
        unfolding s' by (auto simp: system_ok_def shutdown_sequence_def)
    next
      case 9
      with next_effect have e: "e = CloseErrors" and r: "without_logs rest = drop 9 shutdown_sequence"
        by (simp_all add: shutdown_sequence_def)
      from assms(1) 9 have "\<not> errors_ch s"
        by (auto simp: system_ok_def)
      with assms(2) todo e have s': "s' = s\<lparr>errors_ch := True, close_todo := rest\<rparr>"
        by (simp add: close_step_def channel_effect_def)
      from assms(1) 9 r show ?thesis
        unfolding s' by (auto simp: system_ok_def shutdown_sequence_def)
    next
      case 10
      with next_effect have e: "e = SetInstanceNil" and r: "without_logs rest = drop 10 shutdown_sequence"
        by (simp_all add: shutdown_sequence_def)
      from assms(2) todo e have s': "s' = s\<lparr>close_todo := rest\<rparr>"
        by (simp add: close_step_def channel_effect_def)
      from assms(1) 10 r show ?thesis
        unfolding s' by (auto simp: system_ok_def shutdown_sequence_def)
    next
      case 11
      with next_effect have e: "e = KazooClose" and r: "without_logs rest = drop 11 shutdown_sequence"
        by (simp_all add: shutdown_sequence_def)
      from assms(2) todo e have s': "s' = s\<lparr>close_todo := rest\<rparr>"
        by (simp add: close_step_def channel_effect_def)
      from assms(1) 11 r show ?thesis
        unfolding s' by (auto simp: system_ok_def shutdown_sequence_def)
    next
      case 12
      with next_effect show ?thesis
        by (simp add: shutdown_sequence_def)
    qed
    then show ?thesis ..
  qed
qed

lemma list_all_nth: "list_all Q xs \<Longrightarrow> i < length xs \<Longrightarrow> Q (xs ! i)"
  by (simp add: list_all_length)

lemma topic_worker_at_work:
  assumes "system_ok k s" and "i < length (topic_workers s)"
    and "t_todo (topic_workers s ! i) \<noteq> []"
  shows "tworker_ok (topic_workers s ! i)" and "\<not> t_done (topic_workers s ! i)"
    and "0 < cg_wg s" and "\<not> messages_ch s" and "\<not> errors_ch s"
proof -
  from assms(1) have all: "list_all tworker_ok (topic_workers s)"
    and wg: "length (filter (\<lambda>w. \<not> t_done w) (topic_workers s)) = cg_wg s"
    and k4: "4 \<le> k \<longrightarrow> cg_wg s = 0"
    and ch: "messages_ch s \<longleftrightarrow> 8 \<le> k" "errors_ch s \<longleftrightarrow> 9 \<le> k"
    by (simp_all add: system_ok_def)
  show ok: "tworker_ok (topic_workers s ! i)"
    using list_all_nth [OF all assms(2)] .
  with assms(3) show undone: "\<not> t_done (topic_workers s ! i)"
    by (auto simp: tworker_ok_def)
  from filter_length_pos [of i "topic_workers s" "\<lambda>w. \<not> t_done w", OF assms(2) undone] wg
  show pos: "0 < cg_wg s" by simp
  with k4 have "\<not> 4 \<le> k" by auto
  with ch show "\<not> messages_ch s" and "\<not> errors_ch s" by auto
qed

lemma topic_step_shape:
  assumes "topic_step i env cg s = Some s'"
  obtains e rest where "i < length (topic_workers s)" "t_todo (topic_workers s ! i) = e # rest"
  using assms
  by (cases "t_todo (topic_workers s ! i)") (auto simp: topic_step_def Let_def split: if_splits)

lemma topic_step_plain:
  assumes "i < length (topic_workers s)" and "t_todo (topic_workers s ! i) = e # rest"
    and "plain e"
  shows "topic_step i env cg s =
           Some ((channel_effect e s)
                   \<lparr>topic_workers := (topic_workers s)
                      [i := (topic_workers s ! i)\<lparr>t_todo := rest\<rparr>]\<rparr>)"
  using assms by (cases e) (simp_all add: topic_step_def Let_def)

lemma system_ok_topic_update:
  assumes "system_ok k s" and "i < length (topic_workers s)"
    and "tworker_ok w'" and "t_done w' = t_done (topic_workers s ! i)"
  shows "system_ok k (s\<lparr>topic_workers := (topic_workers s)[i := w']\<rparr>)"
  using assms filter_length_update_same [of i "topic_workers s" "\<lambda>w. \<not> t_done w" w']
  by (auto simp: system_ok_def list_all_update)

lemma topic_step_preserves:
  assumes "system_ok k s" and "topic_step i env cg s = Some s'"
  shows "system_ok k s'"
proof -
  from assms(2) obtain e rest where i: "i < length (topic_workers s)"
    and todo: "t_todo (topic_workers s ! i) = e # rest"
    by (rule topic_step_shape)
  define w where "w = topic_workers s ! i"
  from todo have "t_todo (topic_workers s ! i) \<noteq> []" by simp
  note work = topic_worker_at_work [OF assms(1) i this]
  from work(1) have ok: "tworker_ok w" by (simp add: w_def)
  from work(2) have undone: "\<not> t_done w" by (simp add: w_def)
  from ok todo have "worker_todo (0 < t_wg w) (e # rest)"
    by (simp add: tworker_ok_def w_def)
  then show ?thesis
  proof (cases rule: worker_todo_cases)
    case 1
    from topic_step_plain [OF i todo 1(1), of env cg] assms(2) channel_effect_plain [OF 1(1) work(4,5)]
    have s': "s' = s\<lparr>topic_workers := (topic_workers s)[i := w\<lparr>t_todo := rest\<rparr>]\<rparr>"
      by (simp add: w_def)
    from ok 1(2) undone have "tworker_ok (w\<lparr>t_todo := rest\<rparr>)"
      by (simp add: tworker_ok_def)
    with assms(1) i show ?thesis
      unfolding s' by (intro system_ok_topic_update) (simp_all add: w_def)
  next
    case (2 topic partn)
    with assms(2) i todo
    have s': "s' = s\<lparr>topic_workers := (topic_workers s)
                [i := w\<lparr>t_todo := rest, t_wg := t_wg w + 1,
                        t_parts := t_parts w @
                          [\<lparr>p_todo = trace_of (partitionConsumer env topic partn cg),
                            p_done = False\<rparr>]\<rparr>]\<rparr>"
      by (simp add: topic_step_def Let_def w_def)
    from ok 2(2) undone
    have "tworker_ok (w\<lparr>t_todo := rest, t_wg := t_wg w + 1,
                        t_parts := t_parts w @
                          [\<lparr>p_todo = trace_of (partitionConsumer env topic partn cg),
                            p_done = False\<rparr>]\<rparr>)"
      by (simp add: tworker_ok_def new_pworker_ok)
    with assms(1) i show ?thesis
      unfolding s' by (intro system_ok_topic_update) (simp_all add: w_def)
  next
    case 3
    with assms(2) i todo have g: "t_wg w = 0"
      and s': "s' = s\<lparr>topic_workers := (topic_workers s)[i := w\<lparr>t_todo := rest\<rparr>]\<rparr>"
      by (auto simp: topic_step_def Let_def w_def split: if_splits)
    from ok 3(2) g undone have "tworker_ok (w\<lparr>t_todo := rest\<rparr>)"
      by (simp add: tworker_ok_def)
    with assms(1) i show ?thesis
      unfolding s' by (intro system_ok_topic_update) (simp_all add: w_def)
  next
    case 4
    with assms(2) i todo work(3)
    have s': "s' = s\<lparr>cg_wg := cg_wg s - 1, fault := fault s,
                     topic_workers := (topic_workers s)[i := w\<lparr>t_todo := [], t_done := True\<rparr>]\<rparr>"
      by (simp add: topic_step_def Let_def w_def)
    from ok 4 have w': "tworker_ok (w\<lparr>t_todo := [], t_done := True\<rparr>)"
      by (simp add: tworker_ok_def)
    from filter_length_update_less [of i "topic_workers s" "\<lambda>w. \<not> t_done w"
        "w\<lparr>t_todo := [], t_done := True\<rparr>"] i undone
    have count: "length (filter (\<lambda>w. \<not> t_done w)
                   ((topic_workers s)[i := w\<lparr>t_todo := [], t_done := True\<rparr>])) =
                 length (filter (\<lambda>w. \<not> t_done w) (topic_workers s)) - 1"
      by (simp add: w_def)
    from assms(1) work(3) w' count show ?thesis
      unfolding s' by (auto simp: system_ok_def list_all_update)
  qed
qed

lemma topic_worker_undone:
  assumes "system_ok k s" and "i < length (topic_workers s)"
    and "\<not> t_done (topic_workers s ! i)"
  shows "0 < cg_wg s" and "\<not> messages_ch s" and "\<not> errors_ch s"
proof -
  from assms(1) have wg: "length (filter (\<lambda>w. \<not> t_done w) (topic_workers s)) = cg_wg s"
    and k4: "4 \<le> k \<longrightarrow> cg_wg s = 0"
    and ch: "messages_ch s \<longleftrightarrow> 8 \<le> k" "errors_ch s \<longleftrightarrow> 9 \<le> k"
    by (simp_all add: system_ok_def)
  from filter_length_pos [of i "topic_workers s" "\<lambda>w. \<not> t_done w", OF assms(2,3)] wg
  show pos: "0 < cg_wg s" by simp
  with k4 have "\<not> 4 \<le> k" by auto
  with ch show "\<not> messages_ch s" and "\<not> errors_ch s" by auto
qed

lemma partition_step_shape:
  assumes "partition_step i j s = Some s'"
  obtains e rest where "i < length (topic_workers s)" "j < length (t_parts (topic_workers s ! i))"
    "p_todo (t_parts (topic_workers s ! i) ! j) = e # rest"
  using assms
  by (cases "p_todo (t_parts (topic_workers s ! i) ! j)")
     (auto simp: partition_step_def Let_def split: if_splits)

lemma partition_step_other:
  assumes "i < length (topic_workers s)" and "j < length (t_parts (topic_workers s ! i))"
    and "p_todo (t_parts (topic_workers s ! i) ! j) = e # rest" and "e \<noteq> WgDone"
  shows "partition_step i j s =
           Some ((channel_effect e s)
                   \<lparr>topic_workers := (topic_workers s)
                      [i := (topic_workers s ! i)
                         \<lparr>t_parts := (t_parts (topic_workers s ! i))
                            [j := (t_parts (topic_workers s ! i) ! j)\<lparr>p_todo := rest\<rparr>]\<rparr>]\<rparr>)"
  using assms by (cases e) (simp_all add: partition_step_def Let_def)

lemma worker_todo_other:
  assumes "worker_todo False (e # rest)" and "e \<noteq> WgDone"
  shows "worker_todo False rest"
    and "\<not> messages_ch s \<Longrightarrow> \<not> errors_ch s \<Longrightarrow> channel_effect e s = s"
proof -
  from assms show "worker_todo False rest"
    by (cases e) (auto intro: worker_todo_weaken)
  assume "\<not> messages_ch s" "\<not> errors_ch s"
  with assms show "channel_effect e s = s"
    by (cases e) (simp_all add: channel_effect_def)
qed

lemma partition_step_preserves:
  assumes "system_ok k s" and "partition_step i j s = Some s'"
  shows "system_ok k s'"
proof -
  from assms(2) obtain e rest where i: "i < length (topic_workers s)"
    and j: "j < length (t_parts (topic_workers s ! i))"
    and todo: "p_todo (t_parts (topic_workers s ! i) ! j) = e # rest"
    by (rule partition_step_shape)
  define w where "w = topic_workers s ! i"
  define p where "p = t_parts w ! j"
  from assms(1) have "list_all tworker_ok (topic_workers s)"
    by (simp add: system_ok_def)
  from list_all_nth [OF this i] have ok: "tworker_ok w"
    by (simp add: w_def)
  then have count: "length (filter (\<lambda>p. \<not> p_done p) (t_parts w)) = t_wg w"
    and parts: "list_all pworker_ok (t_parts w)"
    and fin: "t_done w \<longrightarrow> t_todo w = [] \<and> t_wg w = 0"
    and left: "worker_todo (0 < t_wg w) (t_todo w)"
    by (simp_all add: tworker_ok_def)
  from j have j': "j < length (t_parts w)" by (simp add: w_def)
  from list_all_nth [OF parts j'] have pok: "pworker_ok p"
    by (simp add: p_def)
  from todo have ptodo: "p_todo p = e # rest" by (simp add: p_def w_def)
  with pok have pundone: "\<not> p_done p" and pleft: "worker_todo False (e # rest)"
    by (auto simp: pworker_ok_def)
  from filter_length_pos [of j "t_parts w" "\<lambda>p. \<not> p_done p"] j' pundone count
  have pos: "0 < t_wg w" by (simp add: p_def)
  with fin have undone: "\<not> t_done w" by auto
  then have "\<not> t_done (topic_workers s ! i)" by (simp add: w_def)
  note open_ch = topic_worker_undone [OF assms(1) i this]
  from left pos have left': "worker_todo b (t_todo w)" for b
    by (simp add: worker_todo_weaken)
  show ?thesis
  proof (cases "e = WgDone")
    case False
    note other = worker_todo_other [OF pleft False]
    from partition_step_other [OF i j todo False] assms(2) other(2) [OF open_ch(2,3)]
    have s': "s' = s\<lparr>topic_workers := (topic_workers s)
                [i := w\<lparr>t_parts := (t_parts w)[j := p\<lparr>p_todo := rest\<rparr>]\<rparr>]\<rparr>"
      by (simp add: w_def p_def)
    from pok other(1) pundone have "pworker_ok (p\<lparr>p_todo := rest\<rparr>)"
      by (simp add: pworker_ok_def)
    with parts have "list_all pworker_ok ((t_parts w)[j := p\<lparr>p_todo := rest\<rparr>])"
      by (rule list_all_update)
    moreover from filter_length_update_same [of j "t_parts w" "\<lambda>p. \<not> p_done p" "p\<lparr>p_todo := rest\<rparr>"] j'
    have "length (filter (\<lambda>p. \<not> p_done p) ((t_parts w)[j := p\<lparr>p_todo := rest\<rparr>])) =
          length (filter (\<lambda>p. \<not> p_done p) (t_parts w))"
      by (simp add: p_def)
    ultimately have "tworker_ok (w\<lparr>t_parts := (t_parts w)[j := p\<lparr>p_todo := rest\<rparr>]\<rparr>)"
      using count fin left by (simp add: tworker_ok_def)
    with assms(1) i show ?thesis
      unfolding s' by (intro system_ok_topic_update) (simp_all add: w_def)
  next
    case True
    with pleft have rest: "rest = []" by simp
    from True assms(2) i j todo pos rest
    have s': "s' = s\<lparr>fault := fault s,
                topic_workers := (topic_workers s)
                  [i := w\<lparr>t_wg := t_wg w - 1,
                          t_parts := (t_parts w)[j := p\<lparr>p_todo := [], p_done := True\<rparr>]\<rparr>]\<rparr>"
      by (simp add: partition_step_def Let_def w_def p_def)
    have "pworker_ok (p\<lparr>p_todo := [], p_done := True\<rparr>)"
      by (simp add: pworker_ok_def)
    with parts have "list_all pworker_ok ((t_parts w)[j := p\<lparr>p_todo := [], p_done := True\<rparr>])"
      by (rule list_all_update)
    moreover from filter_length_update_less [of j "t_parts w" "\<lambda>p. \<not> p_done p"
        "p\<lparr>p_todo := [], p_done := True\<rparr>"] j' pundone
    have "length (filter (\<lambda>p. \<not> p_done p)
            ((t_parts w)[j := p\<lparr>p_todo := [], p_done := True\<rparr>])) =
          length (filter (\<lambda>p. \<not> p_done p) (t_parts w)) - 1"
      by (simp add: p_def)
    ultimately have "tworker_ok (w\<lparr>t_wg := t_wg w - 1,
        t_parts := (t_parts w)[j := p\<lparr>p_todo := [], p_done := True\<rparr>]\<rparr>)"
      using count undone left' by (simp add: tworker_ok_def)
    with assms(1) i have "system_ok k (s\<lparr>topic_workers := (topic_workers s)
                  [i := w\<lparr>t_wg := t_wg w - 1,
                          t_parts := (t_parts w)[j := p\<lparr>p_todo := [], p_done := True\<rparr>]\<rparr>]\<rparr>)"
      by (intro system_ok_topic_update) (simp_all add: w_def)
    then show ?thesis
      unfolding s' by (auto simp: system_ok_def)
  qed
qed

lemma fire_preserves:
  assumes "system_ok k s" and "fire m s = Some s'"
  shows "\<exists>k'. system_ok k' s'"
proof (cases m)
  case CloseStep
  with assms close_step_preserves [of k s s'] show ?thesis
    by (auto simp: fire_def)
next
  case (TopicStep i env cg)
  with assms topic_step_preserves [of k s i env cg s'] show ?thesis
    by (auto simp: fire_def)
next
  case (PartitionStep i j)
  with assms partition_step_preserves [of k s i j s'] show ?thesis
    by (auto simp: fire_def)
qed (insert assms topicListConsumer_preserves [of k s m s'], auto simp: fire_def)

lemma run_moves_preserves:
  "system_ok k s \<Longrightarrow> run_moves ms s = Some s' \<Longrightarrow> \<exists>k'. system_ok k' s'"
proof (induction ms arbitrary: k s)
  case Nil
  then show ?case by auto
next
  case (Cons m ms)
  from Cons.prems(2) obtain s1 where 1: "fire m s = Some s1" and 2: "run_moves ms s1 = Some s'"
    by (auto split: option.splits)
  from fire_preserves [OF Cons.prems(1) 1] obtain k1 where "system_ok k1 s1" ..
  from Cons.IH [OF this 2] show ?case .
qed

lemma joined_group_ok:
  assumes "running cg" and "wg_Wait_returns env"
  shows "system_ok 0 (joined_group env cg topics)"
  using assms Close_returns [OF assms]
  by (auto simp: system_ok_def joined_group_def running_def split: prod.splits)

lemma worker_todo_closes: "worker_todo pending t \<Longrightarrow> CloseMessages \<notin> set t \<and> CloseErrors \<notin> set t"
  by (induction t arbitrary: pending) (auto split: if_splits effect.splits)

lemma system_ok_joined:
  assumes "system_ok k s" and "messages_ch s \<or> errors_ch s"
  shows "workers_joined s" and "cg_wg s = 0" and "stopper_ch s"
proof -
  from assms have k: "8 \<le> k"
    by (auto simp: system_ok_def)
  with assms(1) show wg: "cg_wg s = 0" and "stopper_ch s"
    by (auto simp: system_ok_def)
  from assms(1) have all: "list_all tworker_ok (topic_workers s)"
    and count: "length (filter (\<lambda>w. \<not> t_done w) (topic_workers s)) = cg_wg s"
    by (simp_all add: system_ok_def)
  have "t_done w \<and> t_todo w = [] \<and> list_all (\<lambda>p. p_done p \<and> p_todo p = []) (t_parts w)"
    if w: "w \<in> set (topic_workers s)" for w
  proof -
    from count wg have "length (filter (\<lambda>w. \<not> t_done w) (topic_workers s)) = 0" by simp
    from filter_length_zero [OF this w] have d: "t_done w" by simp
    from all w have ok: "tworker_ok w" by (simp add: list_all_iff)
    with d have e: "t_todo w = []" "t_wg w = 0"
      and c: "length (filter (\<lambda>p. \<not> p_done p) (t_parts w)) = t_wg w"
      and ps: "list_all pworker_ok (t_parts w)"
      by (simp_all add: tworker_ok_def)
    have "p_done p \<and> p_todo p = []" if p: "p \<in> set (t_parts w)" for p
    proof -
      from c e(2) have "length (filter (\<lambda>p. \<not> p_done p) (t_parts w)) = 0" by simp
      from filter_length_zero [OF this p] have "p_done p" by simp
      moreover from ps p have "pworker_ok p" by (simp add: list_all_iff)
      ultimately show ?thesis by (simp add: pworker_ok_def)
    qed
    with d e(1) show ?thesis by (simp add: list_all_iff)
  qed
  then show "workers_joined s"
    by (simp add: workers_joined_def list_all_iff)
qed

lemma system_ok_closed:
  assumes "system_ok k s" and "close_todo s = []"
  shows "messages_ch s \<and> errors_ch s"
proof -
  from assms have "drop k shutdown_sequence = []"
    by (simp add: system_ok_def)
  then have "11 \<le> k"
    by (simp add: shutdown_sequence_def)
  with assms(1) show ?thesis
    by (auto simp: system_ok_def)
qed

lemma Close_with_workers:
  assumes "running cg" and "wg_Wait_returns env"
    and "run_moves moves (joined_group env cg topics) = Some s"
  shows "\<not> fault s" and "messages_ch s \<or> errors_ch s \<Longrightarrow> workers_joined s \<and> cg_wg s = 0 \<and> stopper_ch s"
    and "close_todo s = [] \<Longrightarrow> messages_ch s \<and> errors_ch s"
proof -
  from run_moves_preserves [OF joined_group_ok [OF assms(1,2)] assms(3)]
  obtain k where ok: "system_ok k s" ..
  then show "\<not> fault s" by (simp add: system_ok_def)
  show "workers_joined s \<and> cg_wg s = 0 \<and> stopper_ch s" if "messages_ch s \<or> errors_ch s"
    using system_ok_joined [OF ok that] by simp
  show "messages_ch s \<and> errors_ch s" if "close_todo s = []"
    using system_ok_closed [OF ok that] .
qed


subsection \<open>The race test's schedule\<close>

lemma Close_quiet: "Close quiet_close test_cg = (Returns None, test_cg_closed, quiet_trace)"
  by (simp add: Close_def shutdown_def step_defs quiet_close_def test_cg_def test_cg_closed_def
      quiet_trace_def)

lemma race_topicConsumer:
  "topicConsumer race_tc_env ''Topic'' test_cg =
     (Return, test_cg,
      [Log ''%s :: Started topic consumer'', TopicPartitions ''Topic'',
       Log ''%s :: FAILED to get list of partitions: %s'',
       SendError \<lparr>Topic = ''Topic'', Partition = - 1, Err = ErrorsNew ''test error''\<rparr>,
       Cancel, WgDone])"
proof -
  have ok: "Logf_ok test_cg"
    by (simp add: Logf_ok_def test_cg_def)
  show ?thesis
    by (simp add: topicConsumer_def race_tc_env_def full_errors_tc_env_def with_defer_def
        andThen_Logf [OF ok])
       (simp add: andThen_def send_errors_def test_cg_def)
qed

lemma test_cg_open:
  "\<not> stopper_closed test_cg" "\<not> messages_closed test_cg" "\<not> errors_closed test_cg"
  by (simp_all add: test_cg_def)

lemma race_run:
  "run_moves race_schedule (joined_group quiet_close test_cg [''Topic'']) = Some race_end"
  by (simp add: race_schedule_def joined_group_def Close_quiet quiet_trace_def race_topicConsumer
      fire_def topicListConsumer_def close_step_def topic_step_def channel_effect_def
      test_cg_open race_end_def)

text \<open>
  In the same test \<^verbatim>\<open>Close\<close> cannot take the mutex while the loop holds it, and cannot
  get past \<^verbatim>\<open>cg.wg.Wait()\<close> while the topic consumer has not called \<^verbatim>\<open>Done\<close>.
\<close>

lemma race_Close_waits:
  "run_moves [Lock, CloseStep] (joined_group quiet_close test_cg [''Topic'']) = None"
  "run_moves (take 8 race_schedule @ [CloseStep]) (joined_group quiet_close test_cg [''Topic'']) =
     None"
  by (simp_all add: race_schedule_def joined_group_def Close_quiet quiet_trace_def
      race_topicConsumer fire_def topicListConsumer_def close_step_def topic_step_def
      channel_effect_def test_cg_open)

subsection \<open>The order of a shutdown\<close>

text \<open>
  C3. On the first call of \<^verbatim>\<open>Close\<close> on a running consumer group, whatever the
  collaborators answer, the effects other than log lines are, in this order: the
  stopper is closed between locking and unlocking the mutex, the wait-group is
  joined, the offset manager is closed, the instance is deregistered, the broker
  consumer is closed, \<^verbatim>\<open>messages\<close> and \<^verbatim>\<open>errors\<close> are closed, the instance handle is set
  to nil, and the metadata-store client is closed last; while \<^verbatim>\<open>cg.wg.Wait()\<close> does not
  return, the call stays blocked after closing the stopper and neither channel is
  closed. With \<^verbatim>\<open>Close\<close>, the top-level loop and the workers running together from the
  state in which \<^verbatim>\<open>JoinConsumerGroup\<close> leaves the consumer group, in every state that
  any schedule of their moves reaches: no goroutine has sent on a closed channel or
  closed a closed channel; if \<^verbatim>\<open>messages\<close> or \<^verbatim>\<open>errors\<close> is closed then the stopper is
  closed, the counter of \<^verbatim>\<open>cg.wg\<close> is zero, and every topic consumer and every
  partition consumer that was started has called \<^verbatim>\<open>Done\<close> and has nothing left to do;
  and once \<^verbatim>\<open>Close\<close> has made its last effect both channels are closed. No run of a
  topic consumer or of a partition consumer closes either channel.
\<close>

theorem Close_order:
  assumes "running cg"
  shows "(wg_Wait_returns env \<longrightarrow>
           (case Close env cg of (r, cg', t) \<Rightarrow>
              r = Returns (consumer_Close env) \<and>
              without_logs t =
                [MuLock, CloseStopper, MuUnlock, WgWait, OffsetManagerClose, Deregister,
                 ConsumerClose, CloseMessages, CloseErrors, SetInstanceNil, KazooClose] \<and>
              cg' = cg\<lparr>instance_handle := None, singleShutdown := True, stopper_closed := True,
                      messages_closed := True, errors_closed := True\<rparr>)) \<and>
         (\<not> wg_Wait_returns env \<longrightarrow>
           Close env cg = (Blocks, cg\<lparr>stopper_closed := True\<rparr>, [MuLock, CloseStopper, MuUnlock])) \<and>
         (wg_Wait_returns env \<and> run_moves moves (joined_group env cg topics) = Some s \<longrightarrow>
            \<not> fault s \<and>
            (messages_ch s \<or> errors_ch s \<longrightarrow> stopper_ch s \<and> cg_wg s = 0 \<and> workers_joined s) \<and>
            (close_todo s = [] \<longrightarrow> messages_ch s \<and> errors_ch s)) \<and>
         CloseMessages \<notin> set (trace_of (topicConsumer tenv topic cgw)) \<and>
         CloseErrors \<notin> set (trace_of (topicConsumer tenv topic cgw)) \<and>
         CloseMessages \<notin> set (trace_of (partitionConsumer penv topic partn cgw)) \<and>
         CloseErrors \<notin> set (trace_of (partitionConsumer penv topic partn cgw))"
proof (intro conjI impI)
  assume w: "wg_Wait_returns env"
  from Close_returns [OF assms w]
  show "case Close env cg of (r, cg', t) \<Rightarrow>
          r = Returns (consumer_Close env) \<and>
          without_logs t =
            [MuLock, CloseStopper, MuUnlock, WgWait, OffsetManagerClose, Deregister,
             ConsumerClose, CloseMessages, CloseErrors, SetInstanceNil, KazooClose] \<and>
          cg' = cg\<lparr>instance_handle := None, singleShutdown := True, stopper_closed := True,
                  messages_closed := True, errors_closed := True\<rparr>"
    by (simp add: shutdown_sequence_def)
next
  assume "\<not> wg_Wait_returns env"
  with assms show "Close env cg =
      (Blocks, cg\<lparr>stopper_closed := True\<rparr>, [MuLock, CloseStopper, MuUnlock])"
    by (rule Close_waits)
next
  assume a: "wg_Wait_returns env \<and> run_moves moves (joined_group env cg topics) = Some s"
  note together = Close_with_workers [OF assms a [THEN conjunct1] a [THEN conjunct2]]
  from together(1) show "\<not> fault s" .
  {
    assume c: "messages_ch s \<or> errors_ch s"
    from together(2) [OF c] show "stopper_ch s" and "cg_wg s = 0" and "workers_joined s"
      by simp_all
  }
  {
    assume "close_todo s = []"
    from together(3) [OF this] show "messages_ch s" and "errors_ch s"
      by simp_all
  }
next
  from worker_todo_closes [OF worker_todo_topicConsumer, of tenv topic cgw]
  show "CloseMessages \<notin> set (trace_of (topicConsumer tenv topic cgw))"
    and "CloseErrors \<notin> set (trace_of (topicConsumer tenv topic cgw))"
    by simp_all
  from worker_todo_closes [OF worker_todo_partitionConsumer, of penv topic partn cgw]
  show "CloseMessages \<notin> set (trace_of (partitionConsumer penv topic partn cgw))"
    and "CloseErrors \<notin> set (trace_of (partitionConsumer penv topic partn cgw))"
    by simp_all
qed

theorem Close_order_witness:
  "running test_cg \<and> wg_Wait_returns quiet_close \<and>
   fst (Close quiet_close test_cg) = Returns None \<and>
   without_logs (snd (snd (Close quiet_close test_cg))) =
     [MuLock, CloseStopper, MuUnlock, WgWait, OffsetManagerClose, Deregister,
      ConsumerClose, CloseMessages, CloseErrors, SetInstanceNil, KazooClose] \<and>
   Closed (fst (snd (Close quiet_close test_cg))) \<and>
   run_moves race_schedule (joined_group quiet_close test_cg [''Topic'']) = Some race_end \<and>
   messages_ch race_end \<and> errors_ch race_end \<and> \<not> fault race_end \<and> stopper_ch race_end \<and>
   cg_wg race_end = 0 \<and> workers_joined race_end"
proof -
  have h: "running test_cg"
    by (simp add: running_def test_cg_def)
  have w: "wg_Wait_returns quiet_close" and c: "consumer_Close quiet_close = None"
    by (simp_all add: quiet_close_def)
  have m: "messages_ch race_end" "errors_ch race_end"
    by (simp_all add: race_end_def)
  note first = Close_order [OF h, where env = quiet_close, THEN conjunct1, rule_format, OF w]
  note together = Close_order [OF h, where env = quiet_close and moves = race_schedule
      and topics = "[''Topic'']" and s = race_end,
      THEN conjunct2, THEN conjunct2, THEN conjunct1, rule_format, OF conjI [OF w race_run]]
  from together m have "\<not> fault race_end" "stopper_ch race_end" "cg_wg race_end = 0"
    "workers_joined race_end"
    by simp_all
  with first w c h m race_run show ?thesis
    by (simp add: Closed_def split: prod.splits)
qed

subsection \<open>Calling Close again\<close>

lemma Close_done: "singleShutdown cg \<Longrightarrow> Close env cg = (Returns (Some AlreadyClosing), cg, [])"
  by (simp add: Close_def)

lemma Close_sets_done: "Close env cg = (r, cg', t) \<Longrightarrow> r \<noteq> Blocks \<Longrightarrow> singleShutdown cg'"
  by (auto simp: Close_def split: if_splits prod.splits outcome.splits)

lemma Close_calls_done:
  "singleShutdown cg \<Longrightarrow>
   Close_calls envs cg = (map (\<lambda>_. (Returns (Some AlreadyClosing), [])) envs, cg)"
  by (induction envs) (simp_all add: Close_done)

text \<open>
  C4. Of any number of successive calls of \<^verbatim>\<open>Close\<close>, the first of which returns (or
  panics), every later one has no effect at all, returns \<^verbatim>\<open>AlreadyClosing\<close>, and
  leaves the consumer group as the first call left it.
\<close>

theorem Close_idempotent:
  assumes "Close env cg = (r, cg1, t)" and "r \<noteq> Blocks"
  shows "Close_calls (env # envs) cg =
           ((r, t) # map (\<lambda>_. (Returns (Some AlreadyClosing), [])) envs, cg1)"
  using assms Close_calls_done [OF Close_sets_done [OF assms]]
  by (cases r) simp_all

theorem Close_idempotent_witness:
  "Close_calls [quiet_close, quiet_close, quiet_close] test_cg =
     ([(Returns None, quiet_trace), (Returns (Some AlreadyClosing), []),
       (Returns (Some AlreadyClosing), [])], test_cg_closed)"
  using Close_idempotent [OF Close_quiet, of "[quiet_close, quiet_close]"]
  by simp

subsection \<open>JoinConsumerGroup\<close>

text \<open>
  C6, for a configuration whose two pointers are set. When the group name, the topic
  list or the endpoint list is empty, or the configuration in use (\<^verbatim>\<open>NewConfig()\<close> for
  a nil argument) has its embedded broker configuration and its \<^verbatim>\<open>Zookeeper\<close>
  configuration set and has a negative \<^verbatim>\<open>CommitInterval\<close>, a \<^verbatim>\<open>Zookeeper.Timeout\<close> that
  is not positive, or an \<^verbatim>\<open>Initial\<close> other than the two sentinel offsets, then
  \<^verbatim>\<open>JoinConsumerGroup\<close> returns an error and a nil consumer group and has no effect:
  no constructor is called (so no connection to the store or the broker is made) and
  no goroutine is started.
\<close>

theorem JoinConsumerGroup_rejects:
  assumes "name = [] \<or> topics = [] \<or> zookeeper = [] \<or>
           (sarama (config_in_use ext cfg) = Some sc \<and>
            Zookeeper (config_in_use ext cfg) = Some zk \<and>
            (CommitInterval (config_in_use ext cfg) < 0 \<or>
             Timeout zk \<le> 0 \<or>
             (Initial (config_in_use ext cfg) \<noteq> OffsetOldest \<and>
              Initial (config_in_use ext cfg) \<noteq> OffsetNewest)))"
  shows "\<exists>err. JoinConsumerGroup ext denv name topics zookeeper cfg cgConstructor =
           (Returns (None, Some err), [])"
  using assms
  by (auto simp: JoinConsumerGroup_def Validate_def Let_def)

theorem JoinConsumerGroup_rejects_witness:
  "CommitInterval (config_in_use test_externals (Some (test_config\<lparr>CommitInterval := - 1\<rparr>))) < 0 \<and>
   (\<exists>err. JoinConsumerGroup test_externals test_default_env ''ExampleConsumerGroup'' [''Topic'']
            [''localhost:2181''] (Some (test_config\<lparr>CommitInterval := - 1\<rparr>))
            [newMockConsumerGroup] =
          (Returns (None, Some err), []))"
proof -
  have h: "sarama (config_in_use test_externals (Some (test_config\<lparr>CommitInterval := - 1\<rparr>))) =
             Some \<lparr>ClientID = ''ExampleConsumerGroup'', ChannelBufferSize = 256\<rparr> \<and>
           Zookeeper (config_in_use test_externals (Some (test_config\<lparr>CommitInterval := - 1\<rparr>))) =
             Some \<lparr>Timeout = Second\<rparr> \<and>
           CommitInterval (config_in_use test_externals (Some (test_config\<lparr>CommitInterval := - 1\<rparr>))) < 0"
    by (simp add: config_in_use_def test_config_def)
  from h JoinConsumerGroup_rejects [of "''ExampleConsumerGroup''" "[''Topic'']" "[''localhost:2181'']"
      test_externals "Some (test_config\<lparr>CommitInterval := - 1\<rparr>)"
      "\<lparr>ClientID = ''ExampleConsumerGroup'', ChannelBufferSize = 256\<rparr>" "\<lparr>Timeout = Second\<rparr>"
      test_default_env "[newMockConsumerGroup]"]
  show ?thesis by blast
qed

text \<open>
  The claim as worded fails where a pointer of the configuration is nil: with a
  negative \<^verbatim>\<open>CommitInterval\<close> and no \<^verbatim>\<open>Zookeeper\<close> configuration the call panics in
  \<^verbatim>\<open>Validate\<close>, and with no embedded broker configuration it panics at the assignment of
  the client id; no error is returned.
\<close>

theorem JoinConsumerGroup_nil_pointer_counterexample:
  "CommitInterval (test_config\<lparr>Zookeeper := None, CommitInterval := - 1\<rparr>) < 0 \<and>
   JoinConsumerGroup test_externals test_default_env ''ExampleConsumerGroup'' [''Topic'']
     [''localhost:2181''] (Some (test_config\<lparr>Zookeeper := None, CommitInterval := - 1\<rparr>)) [] =
   (Panics, []) \<and>
   JoinConsumerGroup test_externals test_default_env ''ExampleConsumerGroup'' [''Topic'']
     [''localhost:2181''] (Some (test_config\<lparr>sarama := None, CommitInterval := - 1\<rparr>)) [] =
   (Panics, [])"
  by (simp add: JoinConsumerGroup_def Validate_def config_in_use_def test_config_def)




subsection \<open>The partition assigner\<close>

lemma assign_slices_keys: "map fst (assign_slices n m cs ps) = cs"
  by (induction cs arbitrary: m ps) (simp_all add: Let_def)

lemma assign_slices_subset:
  "(c, s) \<in> set (assign_slices n m cs ps) \<Longrightarrow> set s \<subseteq> set ps"
proof (induction cs arbitrary: m ps)
  case Nil
  then show ?case by simp
next
  case (Cons a cs)
  then show ?case
    by (auto simp: Let_def split: if_splits dest: in_set_takeD in_set_dropD)
qed

lemma assign_slices_concat:
  "length ps = n * length cs + m \<Longrightarrow> m \<le> length cs \<Longrightarrow>
   concat (map snd (assign_slices n m cs ps)) = ps"
proof (induction cs arbitrary: m ps)
  case Nil
  then show ?case by simp
next
  case (Cons a cs)
  show ?case
  proof (cases "0 < m")
    case True
    with Cons.prems have "length (drop (n + 1) ps) = n * length cs + (m - 1)" "m - 1 \<le> length cs"
      by simp_all
    from Cons.IH [OF this] True show ?thesis
      by (simp add: Let_def)
  next
    case False
    with Cons.prems have "length (drop n ps) = n * length cs + (m - 1)" "m - 1 \<le> length cs"
      by simp_all
    from Cons.IH [OF this] False show ?thesis
      by (simp add: Let_def)
  qed
qed

lemma assign_slices_sizes:
  "length ps = n * length cs + m \<Longrightarrow> m \<le> length cs \<Longrightarrow>
   (c, s) \<in> set (assign_slices n m cs ps) \<Longrightarrow> length s = n \<or> length s = n + 1"
proof (induction cs arbitrary: m ps)
  case Nil
  then show ?case by simp
next
  case (Cons a cs)
  show ?case
  proof (cases "0 < m")
    case True
    with Cons.prems(1,2) have inv:
      "length (drop (n + 1) ps) = n * length cs + (m - 1)" "m - 1 \<le> length cs"
      by simp_all
    from Cons.prems(3) True consider "s = take (n + 1) ps"
      | "(c, s) \<in> set (assign_slices n (m - 1) cs (drop (n + 1) ps))"
      by (auto simp: Let_def)
    then show ?thesis
    proof cases
      case 1
      with Cons.prems(1) True show ?thesis by simp
    next
      case 2
      from Cons.IH [OF inv 2] show ?thesis .
    qed
  next
    case False
    with Cons.prems(1,2) have inv:
      "length (drop n ps) = n * length cs + (m - 1)" "m - 1 \<le> length cs"
      by simp_all
    from Cons.prems(3) False consider "s = take n ps"
      | "(c, s) \<in> set (assign_slices n (m - 1) cs (drop n ps))"
      by (auto simp: Let_def)
    then show ?thesis
    proof cases
      case 1
      with Cons.prems(1) False show ?thesis by simp
    next
      case 2
      from Cons.IH [OF inv 2] show ?thesis .
    qed
  qed
qed

lemma take_drop_disjoint_image:
  assumes "distinct (map f ps)"
  shows "f ` set (take k ps) \<inter> f ` set (drop k ps) = {}"
proof -
  have "set (take k (map f ps)) \<inter> set (drop k (map f ps)) = {}"
    using assms by (rule set_take_disj_set_drop_if_distinct) simp
  then show ?thesis
    by (simp add: take_map drop_map)
qed

lemma assign_slices_disjoint:
  "distinct (map f ps) \<Longrightarrow> distinct cs \<Longrightarrow>
   (c1, s1) \<in> set (assign_slices n m cs ps) \<Longrightarrow> (c2, s2) \<in> set (assign_slices n m cs ps) \<Longrightarrow>
   c1 \<noteq> c2 \<Longrightarrow> f ` set s1 \<inter> f ` set s2 = {}"
proof (induction cs arbitrary: m ps)
  case Nil
  then show ?case by simp
next
  case (Cons a cs)
  define k where "k = (if 0 < m then n + 1 else n)"
  let ?rest = "assign_slices n (m - 1) cs (drop k ps)"
  have d: "distinct (map f (drop k ps))"
    using Cons.prems(1) by (simp add: drop_map [symmetric] distinct_drop)
  have split: "f ` set (take k ps) \<inter> f ` set (drop k ps) = {}"
    using Cons.prems(1) by (rule take_drop_disjoint_image)
  have in1: "(c1, s1) = (a, take k ps) \<or> (c1, s1) \<in> set ?rest"
    using Cons.prems(3) by (simp add: k_def Let_def)
  have in2: "(c2, s2) = (a, take k ps) \<or> (c2, s2) \<in> set ?rest"
    using Cons.prems(4) by (simp add: k_def Let_def)
  from in1 in2 Cons.prems(5) consider
      "s1 = take k ps" "(c2, s2) \<in> set ?rest"
    | "(c1, s1) \<in> set ?rest" "s2 = take k ps"
    | "(c1, s1) \<in> set ?rest" "(c2, s2) \<in> set ?rest"
    by auto
  then show ?case
  proof cases
    case 1
    from assign_slices_subset [OF 1(2)] have "f ` set s2 \<subseteq> f ` set (drop k ps)" by auto
    with split 1(1) show ?thesis by blast
  next
    case 2
    from assign_slices_subset [OF 2(1)] have "f ` set s1 \<subseteq> f ` set (drop k ps)" by auto
    with split 2(2) show ?thesis by blast
  next
    case 3
    from Cons.prems(2) have "distinct cs" by simp
    from Cons.IH [OF d this 3 Cons.prems(5)] show ?thesis .
  qed
qed

lemma assigned_member:
  assumes "distinct cs" and "map fst D = cs" and "i \<in> set cs"
  shows "(i, assigned D i) \<in> set D"
proof -
  from assms have "i \<in> fst ` set D" by (metis set_map)
  then obtain s where s: "(i, s) \<in> set D" by auto
  with assms(1,2) have "map_of D i = Some s" by simp
  with s show ?thesis by (simp add: assigned_def)
qed

lemma dividePartitions_invariant:
  assumes "cs \<noteq> []"
  shows "length ps = (length ps div length cs) * length cs + length ps mod length cs"
    and "length ps mod length cs \<le> length cs"
  using assms by simp_all

text \<open>
  C1, for a member list that is not empty. The instance ids \<open>cs\<close> are sorted in the
  lexicographic order of their bytes and the partitions \<open>P\<close> by partition id; an
  instance id names one instance and a partition id one partition of the topic, so
  either list is in strictly ascending order. Then the assigner yields one slice per
  instance id, in the order of the ids; the slices, put one after the other, are \<open>P\<close>;
  slice \<open>k\<close> is the assignment of the \<open>k\<close>-th id; the assignments of any two members
  differ in size by at most one; together the members' assignments are all of \<open>P\<close>; and
  two different members share no partition id.
\<close>

theorem dividePartitions_balanced:
  assumes "cs \<noteq> []" and "sorted_wrt (<) cs" and "sorted_wrt (<) (map pl_id P)"
  shows "map fst (dividePartitionsBetweenConsumers cs P) = cs \<and>
         concat (map snd (dividePartitionsBetweenConsumers cs P)) = P \<and>
         (\<forall>k<length cs. dividePartitionsBetweenConsumers cs P ! k =
            (cs ! k, assigned (dividePartitionsBetweenConsumers cs P) (cs ! k))) \<and>
         (\<forall>i\<in>set cs. \<forall>j\<in>set cs.
            length (assigned (dividePartitionsBetweenConsumers cs P) i) \<le>
              length (assigned (dividePartitionsBetweenConsumers cs P) j) + 1) \<and>
         (\<Union>i\<in>set cs. set (assigned (dividePartitionsBetweenConsumers cs P) i)) = set P \<and>
         (\<forall>i\<in>set cs. \<forall>j\<in>set cs. i \<noteq> j \<longrightarrow>
            pl_id ` set (assigned (dividePartitionsBetweenConsumers cs P) i) \<inter>
            pl_id ` set (assigned (dividePartitionsBetweenConsumers cs P) j) = {})"
proof -
  define n where "n = length P div length cs"
  define m where "m = length P mod length cs"
  define D where "D = dividePartitionsBetweenConsumers cs P"
  have dcs: "distinct cs" and dP: "distinct (map pl_id P)"
    using assms(2,3) by (simp_all add: strict_sorted_iff)
  have D: "D = assign_slices n m cs P"
    by (simp add: D_def dividePartitionsBetweenConsumers_def n_def m_def)
  have inv: "length P = n * length cs + m" "m \<le> length cs"
    using dividePartitions_invariant [OF assms(1), of P] by (simp_all add: n_def m_def)
  have keys: "map fst D = cs"
    by (simp add: D assign_slices_keys)
  have cat: "concat (map snd D) = P"
    using assign_slices_concat [OF inv] by (simp add: D)
  have mem: "(i, assigned D i) \<in> set D" if "i \<in> set cs" for i
    using assigned_member [OF dcs keys that] .
  have nth: "D ! k = (cs ! k, assigned D (cs ! k))" if "k < length cs" for k
  proof -
    from that keys have k: "k < length D" by (metis length_map)
    with keys have f: "fst (D ! k) = cs ! k" by (metis nth_map)
    from k have "D ! k \<in> set D" by simp
    with f have "(cs ! k, snd (D ! k)) \<in> set D" by (metis prod.collapse)
    with dcs keys have "map_of D (cs ! k) = Some (snd (D ! k))" by simp
    with f show ?thesis by (simp add: assigned_def prod_eq_iff)
  qed
  have size: "length (assigned D i) = n \<or> length (assigned D i) = n + 1" if "i \<in> set cs" for i
    using assign_slices_sizes [OF inv] mem [OF that] by (simp add: D)
  have bal: "length (assigned D i) \<le> length (assigned D j) + 1"
    if "i \<in> set cs" "j \<in> set cs" for i j
    using size [OF that(1)] size [OF that(2)] by auto
  have union: "(\<Union>i\<in>set cs. set (assigned D i)) = set P"
  proof
    show "(\<Union>i\<in>set cs. set (assigned D i)) \<subseteq> set P"
      using mem assign_slices_subset [of _ _ n m cs P] by (fastforce simp: D)
    show "set P \<subseteq> (\<Union>i\<in>set cs. set (assigned D i))"
    proof
      fix p assume "p \<in> set P"
      with cat have "p \<in> set (concat (map snd D))" by simp
      then obtain c s where cs: "(c, s) \<in> set D" "p \<in> set s" by auto
      with keys have c: "c \<in> set cs" by (metis fst_conv image_eqI set_map)
      from cs(1) dcs keys have "map_of D c = Some s" by simp
      with cs(2) have "p \<in> set (assigned D c)" by (simp add: assigned_def)
      with c show "p \<in> (\<Union>i\<in>set cs. set (assigned D i))" by blast
    qed
  qed
  have disj: "pl_id ` set (assigned D i) \<inter> pl_id ` set (assigned D j) = {}"
    if "i \<in> set cs" "j \<in> set cs" "i \<noteq> j" for i j
    using assign_slices_disjoint [OF dP dcs, of i "assigned D i" n m j "assigned D j"]
      mem [OF that(1)] mem [OF that(2)] that(3)
    by (simp add: D)
  from keys cat nth bal union disj show ?thesis
    unfolding D_def by blast
qed

lemma fan_out_sizes:
  "length four_partitions div length [''A'', ''B''] = 2"
  "length four_partitions mod length [''A'', ''B''] = 0"
proof -
  have 4: "length four_partitions = 4"
    by (simp add: four_partitions_def)
  have 2: "length [''A'', ''B''] = 2"
    by simp
  show "length four_partitions div length [''A'', ''B''] = 2"
    unfolding 4 2 by simp
  show "length four_partitions mod length [''A'', ''B''] = 0"
    unfolding 4 2 by simp
qed

lemma fan_out_scenario:
  "dividePartitionsBetweenConsumers [''A'', ''B''] four_partitions =
     [(''A'', [test_partition 0, test_partition 1]), (''B'', [test_partition 2, test_partition 3])]"
  unfolding dividePartitionsBetweenConsumers_def fan_out_sizes
  by (simp add: four_partitions_def numeral_2_eq_2)

theorem dividePartitions_balanced_witness:
  "[''A'', ''B''] \<noteq> [] \<and> sorted_wrt (<) [''A'', ''B''] \<and>
   sorted_wrt (<) (map pl_id four_partitions) \<and>
   concat (map snd (dividePartitionsBetweenConsumers [''A'', ''B''] four_partitions)) =
     four_partitions \<and>
   pl_id ` set (assigned (dividePartitionsBetweenConsumers [''A'', ''B''] four_partitions) ''A'') \<inter>
   pl_id ` set (assigned (dividePartitionsBetweenConsumers [''A'', ''B''] four_partitions) ''B'') = {}"
proof -
  have a: "[''A'', ''B''] \<noteq> []" and b: "sorted_wrt (<) [''A'', ''B'']"
    by simp_all
  have c: "sorted_wrt (<) (map pl_id four_partitions)"
    by (simp add: four_partitions_def test_partition_def)
  have d: "''A'' \<in> set [''A'', ''B'']" and e: "''B'' \<in> set [''A'', ''B'']" and f: "''A'' \<noteq> ''B''"
    by simp_all
  note th = dividePartitions_balanced [OF a b c]
  note cat = th [THEN conjunct2, THEN conjunct1]
  note disj = th [THEN conjunct2, THEN conjunct2, THEN conjunct2, THEN conjunct2, THEN conjunct2,
      rule_format, OF d e f]
  from a b c cat disj show ?thesis
    by (intro conjI)
qed

text \<open>
  With no member the claim fails whatever the assigner returns: the members'
  assignments, taken together, are empty, and the partition list is not.
\<close>

theorem dividePartitions_no_member_counterexample:
  "sorted_wrt (<) ([] :: string list) \<and> sorted_wrt (<) (map pl_id [test_partition 0]) \<and>
   set (concat (map (assigned (dividePartitionsBetweenConsumers [] [test_partition 0])) [])) \<noteq>
     set [test_partition 0]"
  by simp

subsection \<open>Sends on the shared channels\<close>

lemma select_cancelled: "ctx_Done sel \<Longrightarrow> select_send_or_Done sel \<noteq> NoCase"
  by (simp add: select_send_or_Done_def)

lemma stopPartitionConsumer_not_blocked:
  "outcome_of (stopPartitionConsumer env topic partn lastOffset cg) \<noteq> Blocked"
  by (cases "offsetManager_FinalizePartition env")
     (simp_all add: stopPartitionConsumer_def andThen_def Logf_def outcome_of_def)

lemma consumePartition_not_blocked:
  "consumePartition env n topic partn lastOffset cg = (r, n', oc, cg', t) \<Longrightarrow> oc \<noteq> Blocked"
  by (auto simp: consumePartition_def Let_def andThen_def Logf_def
      split: if_splits sum.splits)

lemma reestablish_not_blocked:
  "reestablish env n topic partn lastOffset cg = (r, n', oc, cg', t) \<Longrightarrow> oc \<noteq> Blocked"
proof (cases "Logf ''%s/%d :: Consumer encountered an invalid state: re-establishing consumption of partition.'' cg" rule: prod_cases3)
  case (fields oc0 cg0 t0)
  assume a: "reestablish env n topic partn lastOffset cg = (r, n', oc, cg', t)"
  show ?thesis
  proof (cases "oc0 = Continue")
    case True
    obtain r1 n1 oc1 cg1 t1 where c:
      "consumePartition env n topic partn lastOffset cg0 = (r1, n1, oc1, cg1, t1)"
      by (metis prod_cases5)
    from consumePartition_not_blocked [OF c] a fields True c show ?thesis
      by (simp add: reestablish_def)
  next
    case False
    with a fields have "oc = oc0"
      by (cases oc0) (simp_all add: reestablish_def)
    moreover from fields have "oc0 \<noteq> Blocked"
      by (auto simp: Logf_def split: if_splits)
    ultimately show ?thesis by simp
  qed
qed

text \<open>
  The part of C5 that the code has: with the generation context cancelled, neither
  forward of the main loop leaves the worker blocked.
\<close>

lemma forwards_never_block:
  "forwards_cancelled evs \<Longrightarrow>
   outcome_of (partitionConsumerLoop env topic partn n lastOffset evs cg) \<noteq> Blocked"
proof (induction evs arbitrary: n lastOffset cg)
  case Nil
  then show ?case by simp
next
  case (Cons ev evs)
  from Cons.prems have rest: "forwards_cancelled evs"
    by (simp add: forwards_cancelled_def)
  note IH = Cons.IH [OF rest]
  note stop = stopPartitionConsumer_not_blocked
  show ?case
  proof (cases ev)
    case CtxDoneEv
    then show ?thesis by (simp add: stop)
  next
    case ErrorsNil
    obtain r n' oc cg' t where re:
      "reestablish env n topic partn lastOffset cg = (r, n', oc, cg', t)"
      by (metis prod_cases5)
    from reestablish_not_blocked [OF re] IH [of n' lastOffset cg'] stop [of env topic partn lastOffset cg']
    show ?thesis
      by (cases r; cases oc) (simp_all add: ErrorsNil re)
  next
    case (ErrorsEv err sel)
    with Cons.prems have "ctx_Done sel"
      by (simp add: forwards_cancelled_def)
    from select_cancelled [OF this] IH [of n lastOffset cg] stop [of env topic partn lastOffset cg]
    show ?thesis
      by (cases "select_send_or_Done sel") (simp_all add: ErrorsEv)
  next
    case MessagesNil
    obtain r n' oc cg' t where re:
      "reestablish env n topic partn lastOffset cg = (r, n', oc, cg', t)"
      by (metis prod_cases5)
    from reestablish_not_blocked [OF re] IH [of n' lastOffset cg'] stop [of env topic partn lastOffset cg']
    show ?thesis
      by (cases r; cases oc) (simp_all add: MessagesNil re)
  next
    case (MessagesEv message sel)
    with Cons.prems have "ctx_Done sel"
      by (simp add: forwards_cancelled_def)
    from select_cancelled [OF this] IH [of n "Offset message" cg]
      stop [of env topic partn lastOffset cg]
    show ?thesis
      by (cases "select_send_or_Done sel") (simp_all add: MessagesEv)
  qed
qed

text \<open>
  C5 fails on the code. The sends of \<^verbatim>\<open>topicConsumer\<close> and the claim-failure and
  release-failure sends of \<^verbatim>\<open>partitionConsumer\<close> are plain sends on \<^verbatim>\<open>cg.errors\<close>: with
  the channel full and unread the worker stays blocked in the send, and never reaches
  its \<^verbatim>\<open>wg.Done\<close>, whatever happens to the generation context after the worker's
  first check.
\<close>

theorem plain_error_sends_block:
  "topicConsumer full_errors_tc_env ''Topic'' test_cg =
     (Blocked, test_cg,
      [Log ''%s :: Started topic consumer'', TopicPartitions ''Topic'',
       Log ''%s :: FAILED to get list of partitions: %s'']) \<and>
   partitionConsumer full_errors_claim_env ''Topic'' 0 cg_1500ms =
     (Blocked, cg_1500ms,
      [TimeAfter1s, ClaimPartition ''Topic'' 0, TimeAfter1s, ClaimPartition ''Topic'' 0,
       TimeAfter1s, ClaimPartition ''Topic'' 0,
       Log ''%s/%d :: FAILED to claim the partition: %s'']) \<and>
   partitionConsumer full_errors_release_env ''Topic'' 0 test_cg =
     (Blocked, test_cg,
      [TimeAfter1s, ClaimPartition ''Topic'' 0, InitializePartition ''Topic'' 0,
       Log ''%s/%d :: FAILED to determine initial offset: %s'',
       ReleasePartition ''Topic'' 0,
       Log ''%s/%d :: FAILED to release partition: %s''])"
proof (intro conjI)
  have ok: "Logf_ok test_cg" "Logf_ok cg_1500ms"
    by (simp_all add: Logf_ok_def test_cg_def cg_1500ms_def)
  show "topicConsumer full_errors_tc_env ''Topic'' test_cg =
     (Blocked, test_cg,
      [Log ''%s :: Started topic consumer'', TopicPartitions ''Topic'',
       Log ''%s :: FAILED to get list of partitions: %s''])"
    by (simp add: topicConsumer_def full_errors_tc_env_def with_defer_def andThen_Logf [OF ok(1)])
       (simp add: andThen_def send_errors_def test_cg_def)
  have ev: "claim_events full_errors_claim_env n = TimerFired (Some ErrPartitionClaimedByOther)" for n
    by (simp add: full_errors_claim_env_def contended_pc_env_def)
  have b: "instance_handle cg_1500ms \<noteq> None" and c: "12 \<le> length (instanceID cg_1500ms)"
    and d: "\<not> errors_closed cg_1500ms" and f: "\<not> errors_accepts full_errors_claim_env"
    by (simp_all add: cg_1500ms_def test_cg_def full_errors_claim_env_def)
  have 2: "partitionClaimLoop full_errors_claim_env ''Topic'' 0 3 2 cg_1500ms =
      (Blocked, cg_1500ms,
       [TimeAfter1s, ClaimPartition ''Topic'' 0,
        Log ''%s/%d :: FAILED to claim the partition: %s''])"
    using partitionClaimLoop_failed_attempt [OF _ ev b c, of 2 3 "''Topic''" 0] d f by simp
  have 1: "partitionClaimLoop full_errors_claim_env ''Topic'' 0 3 1 cg_1500ms =
      prepend [TimeAfter1s, ClaimPartition ''Topic'' 0]
        (partitionClaimLoop full_errors_claim_env ''Topic'' 0 3 2 cg_1500ms)"
    using partitionClaimLoop_failed_attempt [OF _ ev b c, of 1 3 "''Topic''" 0] by simp
  have 0: "partitionClaimLoop full_errors_claim_env ''Topic'' 0 3 0 cg_1500ms =
      prepend [TimeAfter1s, ClaimPartition ''Topic'' 0]
        (partitionClaimLoop full_errors_claim_env ''Topic'' 0 3 1 cg_1500ms)"
    using partitionClaimLoop_failed_attempt [OF _ ev b c, of 0 3 "''Topic''" 0] by simp
  show "partitionConsumer full_errors_claim_env ''Topic'' 0 cg_1500ms =
     (Blocked, cg_1500ms,
      [TimeAfter1s, ClaimPartition ''Topic'' 0, TimeAfter1s, ClaimPartition ''Topic'' 0,
       TimeAfter1s, ClaimPartition ''Topic'' 0,
       Log ''%s/%d :: FAILED to claim the partition: %s''])"
    by (simp add: partitionConsumer_def with_defer_def andThen_def maxRetries_1500ms 0 1 2)
  have claim: "partitionClaimLoop full_errors_release_env ''Topic'' 0 (maxRetries test_cg) 0 test_cg =
      (Continue, test_cg, [TimeAfter1s, ClaimPartition ''Topic'' 0])"
    by (subst partitionClaimLoop.simps)
       (simp add: maxRetries_def test_cg_def test_config_def go_div_def Second_def
         full_errors_release_env_def test_pc_env_def)
  have body: "consumeClaimed full_errors_release_env ''Topic'' 0 test_cg =
      (Return, test_cg,
       [InitializePartition ''Topic'' 0, Log ''%s/%d :: FAILED to determine initial offset: %s''])"
    by (simp add: consumeClaimed_def full_errors_release_env_def andThen_Logf [OF ok(1)])
  have release: "release_deferred full_errors_release_env ''Topic'' 0 test_cg =
      (Blocked, test_cg,
       [ReleasePartition ''Topic'' 0, Log ''%s/%d :: FAILED to release partition: %s''])"
    by (simp add: release_deferred_def full_errors_release_env_def)
       (simp add: andThen_def instance_call_def Logf_def send_errors_def test_cg_def)
  show "partitionConsumer full_errors_release_env ''Topic'' 0 test_cg =
     (Blocked, test_cg,
      [TimeAfter1s, ClaimPartition ''Topic'' 0, InitializePartition ''Topic'' 0,
       Log ''%s/%d :: FAILED to determine initial offset: %s'',
       ReleasePartition ''Topic'' 0,
       Log ''%s/%d :: FAILED to release partition: %s''])"
    by (simp add: partitionConsumer_def with_defer_def andThen_def claim body release)
qed

end
